theory Spec2Isabelle
  imports Main "HOL-Library.Word" "HOL-Library.Multiset"
begin

unbundle bit_operations_syntax

section \<open>Library functions used by the service\<close>

subsection \<open>Decimal numbers: \<open>strconv.Atoi\<close> and the \<open>%d\<close> verb\<close>

text \<open>
  Go strings are byte sequences; they are modelled as \<open>string\<close> (a list of 8-bit
  characters). \<open>showInt\<close> is what \<open>fmt.Sprintf("%d", i)\<close> prints. \<open>Atoi\<close> is
  \<open>strconv.Atoi\<close> on a 64-bit platform: an optional sign, at least one digit, only
  digits, and a value that fits \<open>int64\<close>; every error of the Go function is \<open>None\<close>.
\<close>

definition digitChar :: "nat \<Rightarrow> char" where
  "digitChar n = ''0123456789'' ! n"

fun showNat :: "nat \<Rightarrow> string" where
  "showNat n = (if n < 10 then [digitChar n] else showNat (n div 10) @ [digitChar (n mod 10)])"

definition showInt :: "int \<Rightarrow> string" where
  "showInt i = (if i < 0 then CHR ''-'' # showNat (nat (- i)) else showNat (nat i))"

definition isDigit :: "char \<Rightarrow> bool" where
  "isDigit c = (48 \<le> (of_char c :: nat) \<and> (of_char c :: nat) \<le> 57)"

definition digitVal :: "char \<Rightarrow> nat" where
  "digitVal c = of_char c - 48"

definition decVal :: "string \<Rightarrow> nat" where
  "decVal ds = foldl (\<lambda>n c. 10 * n + digitVal c) 0 ds"

definition Atoi :: "string \<Rightarrow> int option" where
  "Atoi s = (let (neg, ds) = (case s of [] \<Rightarrow> (False, [])
                               | c # r \<Rightarrow> if c = CHR ''-'' then (True, r)
                                          else if c = CHR ''+'' then (False, r) else (False, s));
                 v = (if neg then - int (decVal ds) else int (decVal ds))
             in if ds = [] \<or> \<not> list_all isDigit ds then None
                else if - (2 ^ 63) \<le> v \<and> v < 2 ^ 63 then Some v else None)"

subsection \<open>Time\<close>

text \<open>
  Instants and durations are nanosecond counts. \<open>Sub\<close> is \<open>Time.Sub\<close>, which
  saturates at the bounds of \<open>int64\<close>; \<open>seconds v\<close> is
  \<open>time.Duration(v) * time.Second\<close>, a 64-bit multiplication that wraps.
\<close>

definition maxDuration :: int where
  "maxDuration = 2 ^ 63 - 1"

definition minDuration :: int where
  "minDuration = - (2 ^ 63)"

definition Sub :: "int \<Rightarrow> int \<Rightarrow> int" where
  "Sub t u = (let d = t - u in
     if maxDuration < d then maxDuration else if d < minDuration then minDuration else d)"

definition Since :: "int \<Rightarrow> int \<Rightarrow> int" where
  "Since clock t = Sub clock t"

definition seconds :: "int \<Rightarrow> int" where
  "seconds v = sint ((word_of_int v :: 64 word) * 1000000000)"

text \<open>
  \<open>wholeSeconds d\<close> is \<open>int(d.Seconds())\<close>. \<open>Duration.Seconds\<close> is
  \<open>float64(sec) + float64(nsec)/1e9\<close> with \<open>sec = d / Second\<close> and
  \<open>nsec = d % Second\<close>, and the conversion to \<open>int\<close> truncates towards zero. The
  binary64 arithmetic is written out on integers. Both conversions are exact
  (\<open>|sec| < 2^34\<close>, \<open>|nsec| < 10^9\<close>); the quotient is rounded to a 53-bit
  significand \<open>m\<close> with exponent \<open>-k\<close>, where \<open>2^-k \<le> nsec/10^9 < 2^(1-k)\<close>; the sum
  has the exponent \<open>E\<close> of \<open>sec\<close> and is rounded to a multiple of \<open>2^(E-52)\<close>. Each
  rounding is to nearest, ties to even. A negative duration gives the negated result
  (binary64 arithmetic and the truncation are symmetric). When \<open>nsec = 0\<close> the sum is
  \<open>sec\<close>; when \<open>sec = 0\<close> it is below one.
\<close>

definition roundHalfEven :: "nat \<Rightarrow> nat \<Rightarrow> nat" where
  "roundHalfEven a b = (let q = a div b; r = a mod b in
     if 2 * r < b then q else if b < 2 * r then q + 1 else if even q then q else q + 1)"

definition secondsAbs :: "nat \<Rightarrow> nat" where
  "secondsAbs n = (let sec = n div 1000000000; nsec = n mod 1000000000 in
     if nsec = 0 \<or> sec = 0 then sec
     else let k = length (takeWhile (\<lambda>j. nsec * 2 ^ j < 1000000000) [0..<31]);
              m = roundHalfEven (nsec * 2 ^ (52 + k)) 1000000000;
              E = length (takeWhile (\<lambda>j. 2 ^ (j + 1) \<le> sec) [0..<63]);
              R = roundHalfEven (sec * 2 ^ (52 + k) + m) (2 ^ (k + E))
          in R div 2 ^ (52 - E))"

definition wholeSeconds :: "int \<Rightarrow> int" where
  "wholeSeconds d = (if 0 \<le> d then int (secondsAbs (nat d)) else - int (secondsAbs (nat (- d))))"

subsection \<open>\<open>crypto/md5\<close> and \<open>encoding/hex\<close>\<close>

text \<open>MD5 as RFC 1321 defines it, on 32-bit words, and lower-case hexadecimal.\<close>

definition md5_K :: "32 word list" where
  "md5_K = [
     0xd76aa478, 0xe8c7b756, 0x242070db, 0xc1bdceee,
     0xf57c0faf, 0x4787c62a, 0xa8304613, 0xfd469501,
     0x698098d8, 0x8b44f7af, 0xffff5bb1, 0x895cd7be,
     0x6b901122, 0xfd987193, 0xa679438e, 0x49b40821,
     0xf61e2562, 0xc040b340, 0x265e5a51, 0xe9b6c7aa,
     0xd62f105d, 0x02441453, 0xd8a1e681, 0xe7d3fbc8,
     0x21e1cde6, 0xc33707d6, 0xf4d50d87, 0x455a14ed,
     0xa9e3e905, 0xfcefa3f8, 0x676f02d9, 0x8d2a4c8a,
     0xfffa3942, 0x8771f681, 0x6d9d6122, 0xfde5380c,
     0xa4beea44, 0x4bdecfa9, 0xf6bb4b60, 0xbebfbc70,
     0x289b7ec6, 0xeaa127fa, 0xd4ef3085, 0x04881d05,
     0xd9d4d039, 0xe6db99e5, 0x1fa27cf8, 0xc4ac5665,
     0xf4292244, 0x432aff97, 0xab9423a7, 0xfc93a039,
     0x655b59c3, 0x8f0ccc92, 0xffeff47d, 0x85845dd1,
     0x6fa87e4f, 0xfe2ce6e0, 0xa3014314, 0x4e0811a1,
     0xf7537e82, 0xbd3af235, 0x2ad7d2bb, 0xeb86d391]"

definition md5_s :: "nat list" where
  "md5_s = [7,12,17,22,7,12,17,22,7,12,17,22,7,12,17,22,
            5,9,14,20,5,9,14,20,5,9,14,20,5,9,14,20,
            4,11,16,23,4,11,16,23,4,11,16,23,4,11,16,23,
            6,10,15,21,6,10,15,21,6,10,15,21,6,10,15,21]"

type_synonym md5_state = "32 word \<times> 32 word \<times> 32 word \<times> 32 word"

definition rotl32 :: "nat \<Rightarrow> 32 word \<Rightarrow> 32 word" where
  "rotl32 n x = (push_bit n x) OR (drop_bit (32 - n) x)"

definition md5_round :: "32 word list \<Rightarrow> md5_state \<Rightarrow> nat \<Rightarrow> md5_state" where
  "md5_round M st i = (case st of (a, b, c, d) \<Rightarrow>
     let (f, g) = (if i < 16 then ((b AND c) OR (NOT b AND d), i)
                   else if i < 32 then ((d AND b) OR (NOT d AND c), (5 * i + 1) mod 16)
                   else if i < 48 then (b XOR c XOR d, (3 * i + 5) mod 16)
                   else (c XOR (b OR NOT d), (7 * i) mod 16));
         f' = f + a + md5_K ! i + M ! g
     in (d, b + rotl32 (md5_s ! i) f', b, c))"

fun le32 :: "8 word list \<Rightarrow> 32 word" where
  "le32 [b0, b1, b2, b3] =
     ucast b0 OR push_bit 8 (ucast b1) OR push_bit 16 (ucast b2) OR push_bit 24 (ucast b3)"
| "le32 _ = 0"

fun chunks :: "nat \<Rightarrow> 'a list \<Rightarrow> 'a list list" where
  "chunks n [] = []"
| "chunks n xs = (if n = 0 then [] else take n xs # chunks n (drop n xs))"

definition md5_block :: "md5_state \<Rightarrow> 8 word list \<Rightarrow> md5_state" where
  "md5_block st blk = (let M = map le32 (chunks 4 blk) in
     case st of (a0, b0, c0, d0) \<Rightarrow>
     case foldl (md5_round M) st [0..<64] of (a, b, c, d) \<Rightarrow> (a0 + a, b0 + b, c0 + c, d0 + d))"

definition le_bytes32 :: "32 word \<Rightarrow> 8 word list" where
  "le_bytes32 w = [ucast w, ucast (drop_bit 8 w), ucast (drop_bit 16 w), ucast (drop_bit 24 w)]"

definition le_bytes64 :: "64 word \<Rightarrow> 8 word list" where
  "le_bytes64 w = [ucast w, ucast (drop_bit 8 w), ucast (drop_bit 16 w), ucast (drop_bit 24 w),
     ucast (drop_bit 32 w), ucast (drop_bit 40 w), ucast (drop_bit 48 w), ucast (drop_bit 56 w)]"

definition md5_pad :: "8 word list \<Rightarrow> 8 word list" where
  "md5_pad m = m @ [0x80] @ replicate ((119 - length m mod 64) mod 64) 0
                 @ le_bytes64 (word_of_nat (8 * length m))"

definition md5_init :: md5_state where
  "md5_init = (0x67452301, 0xefcdab89, 0x98badcfe, 0x10325476)"

definition md5_digest :: "md5_state \<Rightarrow> 8 word list" where
  "md5_digest st = (case st of (a, b, c, d) \<Rightarrow>
     le_bytes32 a @ le_bytes32 b @ le_bytes32 c @ le_bytes32 d)"

definition md5_Sum :: "8 word list \<Rightarrow> 8 word list" where
  "md5_Sum m = md5_digest (foldl md5_block md5_init (chunks 64 (md5_pad m)))"

definition hexdigit :: "nat \<Rightarrow> char" where
  "hexdigit n = ''0123456789abcdef'' ! n"

definition EncodeToString :: "8 word list \<Rightarrow> string" where
  "EncodeToString bs = concat (map (\<lambda>b. [hexdigit (unat b div 16), hexdigit (unat b mod 16)]) bs)"

definition bytes_of :: "string \<Rightarrow> 8 word list" where
  "bytes_of s = map (\<lambda>c. word_of_nat (of_char c)) s"

section \<open>The service: data\<close>

text \<open>
  \<open>chromeWorker\<close> and \<open>cacheEntry\<close> are the structs of \<^verbatim>\<open>core/shotlink.go\<close>. A
  worker pointer is the worker's index in \<open>workers\<close>. The allocator context and its
  cancel function are represented by \<open>cancelCalls\<close>, the number of times
  \<open>worker.cancel()\<close> has run; \<open>mu\<close> is true while the mutex is held.
\<close>

record chromeWorker =
  wid :: nat
  busy :: bool
  lastUsed :: int
  mu :: bool
  cancelCalls :: nat

record cacheEntry =
  data :: string
  timestamp :: int

text \<open>\<open>sync.Once\<close>: not yet entered, running its function (with the loop index of
  \<open>Shutdown\<close>), or done.\<close>

datatype onceState = OnceIdle | OnceRunning nat | OnceDone

text \<open>The goroutine \<open>cleanupExpiredCache\<close>: waiting for the ticker, inside
  \<open>screenCache.Range\<close> with the \<open>now\<close> it read, about to delete a key it found
  expired, or returned.\<close>

datatype sweepPc = SweepWait | SweepRange int | SweepDel int string | SweepExited

text \<open>The package-level variables, the process environment and the clock.\<close>

record globals =
  workerPool :: "nat list"
  maxWorkers :: nat
  workers :: "chromeWorker list"
  shutdownOnce :: onceState
  shutdownChan :: bool
  activeRequests :: "64 word"
  totalRequests :: "64 word"
  failedRequests :: "64 word"
  timeoutRequests :: "64 word"
  screenCache :: "string \<rightharpoonup> cacheEntry"
  cacheEnabled :: bool
  cacheDuration :: int
  env :: "string \<Rightarrow> string"
  clock :: int
  sweeper :: sweepPc
  poolFullLog :: nat

text \<open>A request: what \<open>r.URL.Query().Get\<close> returns for the three parameters (the
  empty string when the parameter is absent).\<close>

record request =
  q_url :: string
  q_width :: string
  q_height :: string

text \<open>\<open>http.ResponseWriter\<close>: the header map, the status code once
  \<open>WriteHeader\<close> has run, and the body written so far.\<close>

record responseWriter =
  header :: "string \<rightharpoonup> string"
  code :: "nat option"
  body :: string

definition newWriter :: responseWriter where
  "newWriter = \<lparr>header = Map.empty, code = None, body = []\<rparr>"

definition Set :: "string \<Rightarrow> string \<Rightarrow> responseWriter \<Rightarrow> responseWriter" where
  "Set k v w = (if code w = None then w\<lparr>header := (header w)(k \<mapsto> v)\<rparr> else w)"

definition Del :: "string \<Rightarrow> responseWriter \<Rightarrow> responseWriter" where
  "Del k w = (if code w = None then w\<lparr>header := (header w)(k := None)\<rparr> else w)"

definition WriteHeader :: "nat \<Rightarrow> responseWriter \<Rightarrow> responseWriter" where
  "WriteHeader c w = (if code w = None then w\<lparr>code := Some c\<rparr> else w)"

definition Write :: "string \<Rightarrow> responseWriter \<Rightarrow> responseWriter" where
  "Write b w = (let w' = WriteHeader 200 w in w'\<lparr>body := body w' @ b\<rparr>)"

text \<open>\<open>http.Error\<close>.\<close>

definition Error :: "string \<Rightarrow> nat \<Rightarrow> responseWriter \<Rightarrow> responseWriter" where
  "Error msg c w =
     Write (msg @ [CHR 0x0A])
       (WriteHeader c
         (Set ''X-Content-Type-Options'' ''nosniff''
           (Set ''Content-Type'' ''text/plain; charset=utf-8''
             (Del ''Content-Length'' w))))"

subsection \<open>The browser\<close>

text \<open>
  \<open>captureScreenshot\<close> creates a fresh chromedp context on the worker's allocator and
  calls \<open>chromedp.Run\<close> under a context with the deadline. \<open>Run\<close> first launches a
  browser process, then executes its actions in order and returns the first error. The
  browser is a parameter: how long the launch takes and how it ends, and for every
  action how long it takes, whether it succeeds, fails or panics, and (for the
  screenshot) the image. \<open>Sleep\<close> takes exactly its duration.

  The deadline. A launch without an executable fails at once, whatever the deadline. A
  launch under a context that has already expired returns the context's error,
  \<open>context.DeadlineExceeded\<close>. A launch that the deadline interrupts returns "chrome
  failed to start", which is not \<open>context.DeadlineExceeded\<close>. An action that the
  deadline interrupts returns \<open>context.DeadlineExceeded\<close>. \<open>Run\<close> also returns the
  actions it started.
\<close>

datatype action =
    SetDeviceMetricsOverride int int
  | Navigate string
  | WaitReady string
  | Sleep int
  | FullScreenshot nat

datatype launchOutcome = Launched | LaunchFailed | NoExecutable

datatype actOutcome = ActDone | ActError | ActPanic

type_synonym browser = "(nat \<times> launchOutcome) \<times> (action \<Rightarrow> nat \<times> actOutcome \<times> string)"

datatype runErr = DeadlineExceeded | OtherError

datatype runResult = RunOk string | RunErr runErr | RunPanic

fun Do :: "(action \<Rightarrow> nat \<times> actOutcome \<times> string) \<Rightarrow> int \<Rightarrow> int \<Rightarrow> string \<Rightarrow> action list
    \<Rightarrow> action list \<times> runResult" where
  "Do br tmo el buf [] = ([], RunOk buf)"
| "Do br tmo el buf (a # as) =
     (if tmo \<le> el then ([], RunErr DeadlineExceeded)
      else case br a of (d, oc, img) \<Rightarrow>
        let d' = (case a of Sleep n \<Rightarrow> n | _ \<Rightarrow> int d);
            oc' = (case a of Sleep n \<Rightarrow> ActDone | _ \<Rightarrow> oc);
            buf' = (case a of FullScreenshot q \<Rightarrow> img | _ \<Rightarrow> buf)
        in if tmo \<le> el + d' then ([a], RunErr DeadlineExceeded)
           else case oc' of
                  ActPanic \<Rightarrow> ([a], RunPanic)
                | ActError \<Rightarrow> ([a], RunErr OtherError)
                | ActDone \<Rightarrow> (case Do br tmo (el + d') buf' as of (tr, r) \<Rightarrow> (a # tr, r)))"

definition Run :: "browser \<Rightarrow> int \<Rightarrow> action list \<Rightarrow> action list \<times> runResult" where
  "Run br tmo as = (case fst br of (d0, lo) \<Rightarrow>
     if lo = NoExecutable then ([], RunErr OtherError)
     else if tmo \<le> 0 then ([], RunErr DeadlineExceeded)
     else if tmo \<le> int d0 then ([], RunErr OtherError)
     else if lo = LaunchFailed then ([], RunErr OtherError)
     else Do (snd br) tmo (int d0) [] as)"

definition captureTasks :: "string \<Rightarrow> int \<Rightarrow> int \<Rightarrow> action list" where
  "captureTasks u w h =
     [SetDeviceMetricsOverride w h, Navigate u, WaitReady ''body'', Sleep 1000000000,
      FullScreenshot 90]"

definition captureScreenshot :: "browser \<Rightarrow> string \<Rightarrow> int \<Rightarrow> int \<Rightarrow> int \<Rightarrow> action list \<times> runResult" where
  "captureScreenshot br u w h tmo = Run br tmo (captureTasks u w h)"

section \<open>The service: operations\<close>

subsection \<open>\<open>init\<close>\<close>

text \<open>\<open>envSeconds\<close> is the pattern the source uses for its three durations: the
  default, unless the variable holds a positive integer, then that many seconds.\<close>

definition envSeconds :: "(string \<Rightarrow> string) \<Rightarrow> string \<Rightarrow> int \<Rightarrow> int" where
  "envSeconds e name dflt =
     (let t = e name in
      if t \<noteq> [] then (case Atoi t of Some val \<Rightarrow> if 0 < val then seconds val else dflt
                                    | None \<Rightarrow> dflt)
      else dflt)"

definition createWorker :: "int \<Rightarrow> nat \<Rightarrow> chromeWorker" where
  "createWorker t i = \<lparr>wid = i, busy = False, lastUsed = t, mu = False, cancelCalls = 0\<rparr>"

definition initMaxWorkers :: "(string \<Rightarrow> string) \<Rightarrow> nat" where
  "initMaxWorkers e =
     (let mw = e ''MAX_CHROME_WORKERS'' in
      if mw \<noteq> [] then (case Atoi mw of Some val \<Rightarrow> if 0 < val then nat val else 20
                                      | None \<Rightarrow> 20)
      else 20)"

definition init :: "(string \<Rightarrow> string) \<Rightarrow> globals" where
  "init e =
     (let n = initMaxWorkers e; ce = e ''CACHE_ENABLED'' in
      \<lparr>workerPool = [0..<n],
       maxWorkers = n,
       workers = map (createWorker 0) [0..<n],
       shutdownOnce = OnceIdle,
       shutdownChan = False,
       activeRequests = 0,
       totalRequests = 0,
       failedRequests = 0,
       timeoutRequests = 0,
       screenCache = Map.empty,
       cacheEnabled = (\<not> (ce = ''false'' \<or> ce = ''0'')),
       cacheDuration = envSeconds e ''CACHE_DURATION_SECONDS'' (5 * 60 * 1000000000),
       env = e,
       clock = 0,
       sweeper = SweepWait,
       poolFullLog = 0\<rparr>)"

subsection \<open>\<open>getCacheKey\<close>\<close>

definition cacheKeyText :: "string \<Rightarrow> int \<Rightarrow> int \<Rightarrow> string" where
  "cacheKeyText u w h = u @ '':'' @ showInt w @ ''x'' @ showInt h"

definition getCacheKey :: "string \<Rightarrow> int \<Rightarrow> int \<Rightarrow> string" where
  "getCacheKey u w h = EncodeToString (md5_Sum (bytes_of (cacheKeyText u w h)))"

subsection \<open>The cache operations of \<open>HandleScreenshot\<close>\<close>

text \<open>
  The source has no cache functions: the lookup and the store are written inside
  \<open>HandleScreenshot\<close>. \<open>fresh\<close> is the test
  \<open>time.Since(entry.timestamp) < cacheDuration\<close> of line 261 and \<open>cachePut\<close> the call
  \<open>screenCache.Store(cacheKey, &cacheEntry{buf, time.Now()})\<close> of line 316; the handler
  below uses both.
\<close>

definition fresh :: "int \<Rightarrow> int \<Rightarrow> cacheEntry \<Rightarrow> bool" where
  "fresh t ttl e = (Since t (timestamp e) < ttl)"

definition cachePut :: "int \<Rightarrow> string \<Rightarrow> string \<Rightarrow> (string \<rightharpoonup> cacheEntry) \<Rightarrow> (string \<rightharpoonup> cacheEntry)" where
  "cachePut t k v c = c(k \<mapsto> \<lparr>data = v, timestamp = t\<rparr>)"

subsection \<open>Request goroutines\<close>

text \<open>
  Every request runs \<open>HandleScreenshot\<close> in a goroutine of its own. A goroutine is its
  program counter (named after the source line it is about to execute, with the live
  local variables \<open>worker\<close>, \<open>entry\<close>, \<open>err\<close>, \<open>buf\<close> as arguments), the other
  locals, whether it is panicking, and its response writer. Each step performs at most
  one access to the shared variables, so that the interleavings of the model are those
  of the program. \<open>trace\<close> and \<open>outcome\<close> are history variables: the shared
  accesses the goroutine has performed, and how its request was decided (which check
  answered it, what \<open>getWorker\<close> and \<open>captureScreenshot\<close> returned). No step reads
  them.
\<close>

datatype selCase = CaseWorker | CaseTimer | CaseShutdown

text \<open>The two errors of \<open>getWorker\<close>: "no worker available within timeout" and
  "service is shutting down".\<close>

datatype acqErr = NoWorkerAvailable | ShuttingDown

datatype pc =
    L235 | L236 | L238 | L257 | L261 cacheEntry | L273
  | L132 int | L134 nat | L291 | L292
  | L299 nat | L340 nat | L302 nat runErr | L305 nat | L314 nat string
  | L145 nat | L146 nat | L147 nat | L227 | L232 | Done

datatype access =
    AddTotal | AddActive | SubActive | AddFailed | AddTimeout
  | CacheLoad string | CacheStore string
  | AcquireOk nat | AcquireErr acqErr
  | Rendered runResult
  | Release nat | PoolSend nat | PoolFull nat

datatype outcome =
    Pending | BadRequest | Hit cacheEntry | NoWorker acqErr | Captured nat runResult

record goroutine =
  req :: request
  pc :: pc
  url :: string
  width :: int
  height :: int
  timeout :: int
  panicking :: bool
  writer :: responseWriter
  trace :: "access list"
  outcome :: outcome

definition spawn :: "request \<Rightarrow> goroutine" where
  "spawn r = \<lparr>req = r, pc = L235, url = [], width = 1280, height = 720, timeout = 0,
              panicking = False, writer = newWriter, trace = [], outcome = Pending\<rparr>"

definition parseDim :: "string \<Rightarrow> int \<Rightarrow> int \<Rightarrow> int" where
  "parseDim s dflt bound =
     (if s \<noteq> [] then (case Atoi s of Some val \<Rightarrow> if 0 < val \<and> val \<le> bound then val else dflt
                                   | None \<Rightarrow> dflt)
      else dflt)"

text \<open>The three cases of the \<open>select\<close> in \<open>getWorker\<close> that can proceed. Go chooses
  among them at random; the choice is the argument \<open>n\<close> of a step.\<close>

definition readyCases :: "globals \<Rightarrow> int \<Rightarrow> selCase list" where
  "readyCases g timerAt =
     (if workerPool g \<noteq> [] then [CaseWorker] else [])
     @ (if timerAt \<le> clock g then [CaseTimer] else [])
     @ (if shutdownChan g then [CaseShutdown] else [])"

definition okResponse :: "int \<Rightarrow> string \<Rightarrow> string \<Rightarrow> responseWriter \<Rightarrow> responseWriter" where
  "okResponse ttl xcache payload w =
     Write payload
       (WriteHeader 200
         (Set ''Cache-Control'' (''public, max-age='' @ showInt (wholeSeconds ttl))
           (Set ''X-Cache'' xcache
             (Set ''Content-Type'' ''image/png'' w))))"

definition urlRequired :: string where
  "urlRequired = [CHR 0x27] @ ''url'' @ [CHR 0x27] @ '' parameter is required''"

definition setWorker :: "nat \<Rightarrow> (chromeWorker \<Rightarrow> chromeWorker) \<Rightarrow> globals \<Rightarrow> globals" where
  "setWorker w f g = g\<lparr>workers := (workers g)[w := f (workers g ! w)]\<rparr>"

definition logged :: "access \<Rightarrow> goroutine \<Rightarrow> goroutine" where
  "logged a th = th\<lparr>trace := trace th @ [a]\<rparr>"

definition HandleScreenshot :: "nat \<Rightarrow> browser \<Rightarrow> globals \<Rightarrow> goroutine \<Rightarrow> globals \<times> goroutine" where
  "HandleScreenshot n br g th = (case pc th of
     L235 \<Rightarrow> (g\<lparr>totalRequests := totalRequests g + 1\<rparr>, logged AddTotal (th\<lparr>pc := L236\<rparr>))
   | L236 \<Rightarrow> (g\<lparr>activeRequests := activeRequests g + 1\<rparr>, logged AddActive (th\<lparr>pc := L238\<rparr>))
   | L238 \<Rightarrow>
       (if q_url (req th) = []
        then (g, th\<lparr>writer := Error urlRequired 400 (writer th), pc := L227,
                     outcome := BadRequest\<rparr>)
        else (g, th\<lparr>url := q_url (req th),
                     width := parseDim (q_width (req th)) 1280 3840,
                     height := parseDim (q_height (req th)) 720 2160,
                     pc := L257\<rparr>))
   | L257 \<Rightarrow>
       (if cacheEnabled g
        then (case screenCache g (getCacheKey (url th) (width th) (height th)) of
                Some entry \<Rightarrow>
                  (g, logged (CacheLoad (getCacheKey (url th) (width th) (height th)))
                        (th\<lparr>pc := L261 entry\<rparr>))
              | None \<Rightarrow>
                  (g, logged (CacheLoad (getCacheKey (url th) (width th) (height th)))
                        (th\<lparr>pc := L273\<rparr>)))
        else (g, th\<lparr>pc := L273\<rparr>))
   | L261 entry \<Rightarrow>
       (if fresh (clock g) (cacheDuration g) entry
        then (g, th\<lparr>writer := okResponse (cacheDuration g) ''HIT'' (data entry) (writer th),
                     pc := L227, outcome := Hit entry\<rparr>)
        else (g, th\<lparr>pc := L273\<rparr>))
   | L273 \<Rightarrow>
       (g, th\<lparr>timeout := envSeconds (env g) ''SCREENSHOT_TIMEOUT'' (45 * 1000000000),
               pc := L132 (clock g + max 0 (envSeconds (env g) ''WORKER_TIMEOUT'' (15 * 1000000000)))\<rparr>)
   | L132 timerAt \<Rightarrow>
       (case readyCases g timerAt of
          [] \<Rightarrow> (g, th)
        | c # cs \<Rightarrow>
           (case (c # cs) ! (n mod length (c # cs)) of
              CaseWorker \<Rightarrow>
                (g\<lparr>workerPool := tl (workerPool g)\<rparr>,
                 logged (AcquireOk (hd (workerPool g))) (th\<lparr>pc := L134 (hd (workerPool g))\<rparr>))
            | CaseTimer \<Rightarrow>
                (g, logged (AcquireErr NoWorkerAvailable)
                      (th\<lparr>pc := L291, outcome := NoWorker NoWorkerAvailable\<rparr>))
            | CaseShutdown \<Rightarrow>
                (g, logged (AcquireErr ShuttingDown)
                      (th\<lparr>pc := L291, outcome := NoWorker ShuttingDown\<rparr>))))
   | L134 w \<Rightarrow> (setWorker w (\<lambda>x. x\<lparr>busy := True\<rparr>) g, th\<lparr>pc := L299 w\<rparr>)
   | L291 \<Rightarrow> (g\<lparr>timeoutRequests := timeoutRequests g + 1\<rparr>, logged AddTimeout (th\<lparr>pc := L292\<rparr>))
   | L292 \<Rightarrow>
       (g\<lparr>failedRequests := failedRequests g + 1\<rparr>,
        logged AddFailed
          (th\<lparr>writer := Error ''Server busy, please retry later'' 503 (writer th), pc := L227\<rparr>))
   | L299 w \<Rightarrow>
       (if mu (workers g ! w) then (g, th)
        else (setWorker w (\<lambda>x. x\<lparr>mu := True\<rparr>) g, th\<lparr>pc := L340 w\<rparr>))
   | L340 w \<Rightarrow>
       (case snd (captureScreenshot br (url th) (width th) (height th) (timeout th)) of
          RunOk buf \<Rightarrow>
            (setWorker w (\<lambda>x. x\<lparr>mu := False\<rparr>) g,
             logged (Rendered (RunOk buf)) (th\<lparr>pc := L314 w buf, outcome := Captured w (RunOk buf)\<rparr>))
        | RunErr err \<Rightarrow>
            (setWorker w (\<lambda>x. x\<lparr>mu := False\<rparr>) g,
             logged (Rendered (RunErr err))
               (th\<lparr>pc := L302 w err, outcome := Captured w (RunErr err)\<rparr>))
        | RunPanic \<Rightarrow>
            (setWorker w (\<lambda>x. x\<lparr>mu := False\<rparr>) g,
             logged (Rendered RunPanic)
               (th\<lparr>panicking := True, pc := L145 w, outcome := Captured w RunPanic\<rparr>)))
   | L302 w err \<Rightarrow>
       (g\<lparr>failedRequests := failedRequests g + 1\<rparr>,
        logged AddFailed
          (if err = DeadlineExceeded then th\<lparr>pc := L305 w\<rparr>
           else th\<lparr>writer := Error ''Error capturing screenshot'' 500 (writer th), pc := L145 w\<rparr>))
   | L305 w \<Rightarrow>
       (g\<lparr>timeoutRequests := timeoutRequests g + 1\<rparr>,
        logged AddTimeout
          (th\<lparr>writer := Error ''Screenshot timeout - page took too long to load'' 408 (writer th),
              pc := L145 w\<rparr>))
   | L314 w buf \<Rightarrow>
       (if cacheEnabled g \<and> 0 < length buf
        then (g\<lparr>screenCache :=
                   cachePut (clock g) (getCacheKey (url th) (width th) (height th)) buf
                     (screenCache g)\<rparr>,
              logged (CacheStore (getCacheKey (url th) (width th) (height th)))
                (th\<lparr>writer := okResponse (cacheDuration g) ''MISS'' buf (writer th), pc := L145 w\<rparr>))
        else (g, th\<lparr>writer := okResponse (cacheDuration g) ''MISS'' buf (writer th), pc := L145 w\<rparr>))
   | L145 w \<Rightarrow> (setWorker w (\<lambda>x. x\<lparr>busy := False\<rparr>) g, logged (Release w) (th\<lparr>pc := L146 w\<rparr>))
   | L146 w \<Rightarrow> (setWorker w (\<lambda>x. x\<lparr>lastUsed := clock g\<rparr>) g, th\<lparr>pc := L147 w\<rparr>)
   | L147 w \<Rightarrow>
       (if length (workerPool g) < maxWorkers g
        then (g\<lparr>workerPool := workerPool g @ [w]\<rparr>, logged (PoolSend w) (th\<lparr>pc := L227\<rparr>))
        else (g\<lparr>poolFullLog := poolFullLog g + 1\<rparr>, logged (PoolFull w) (th\<lparr>pc := L227\<rparr>)))
   | L227 \<Rightarrow>
       (if panicking th
        then (g\<lparr>failedRequests := failedRequests g + 1\<rparr>,
              logged AddFailed
                (th\<lparr>writer := Error ''Internal server error'' 500 (writer th), pc := L232\<rparr>))
        else (g, th\<lparr>pc := L232\<rparr>))
   | L232 \<Rightarrow> (g\<lparr>activeRequests := activeRequests g - 1\<rparr>, logged SubActive (th\<lparr>pc := Done\<rparr>))
   | Done \<Rightarrow> (g, th))"

subsection \<open>\<open>Shutdown\<close>, the cache sweep, the health probe\<close>

definition Shutdown_call :: "globals \<Rightarrow> globals" where
  "Shutdown_call g =
     (case shutdownOnce g of
        OnceIdle \<Rightarrow> g\<lparr>shutdownOnce := OnceRunning 0, shutdownChan := True\<rparr>
      | _ \<Rightarrow> g)"

definition Shutdown_loop :: "globals \<Rightarrow> globals" where
  "Shutdown_loop g =
     (case shutdownOnce g of
        OnceRunning i \<Rightarrow>
          (if i < length (workers g)
           then (setWorker i (\<lambda>x. x\<lparr>cancelCalls := cancelCalls x + 1\<rparr>) g)
                  \<lparr>shutdownOnce := OnceRunning (i + 1)\<rparr>
           else g\<lparr>shutdownOnce := OnceDone\<rparr>)
      | _ \<Rightarrow> g)"

datatype sweepEvent = Ticker | Visit string | Delete | RangeEnd | Exit

definition cleanupExpiredCache :: "sweepEvent \<Rightarrow> globals \<Rightarrow> globals" where
  "cleanupExpiredCache ev g = (case (sweeper g, ev) of
     (SweepWait, Ticker) \<Rightarrow>
       (if cacheEnabled g then g\<lparr>sweeper := SweepRange (clock g)\<rparr> else g)
   | (SweepWait, Exit) \<Rightarrow> (if shutdownChan g then g\<lparr>sweeper := SweepExited\<rparr> else g)
   | (SweepRange t, Visit k) \<Rightarrow>
       (case screenCache g k of
          Some entry \<Rightarrow>
            (if cacheDuration g < Sub t (timestamp entry) then g\<lparr>sweeper := SweepDel t k\<rparr> else g)
        | None \<Rightarrow> g)
   | (SweepRange t, RangeEnd) \<Rightarrow> g\<lparr>sweeper := SweepWait\<rparr>
   | (SweepDel t k, Delete) \<Rightarrow> g\<lparr>screenCache := (screenCache g)(k := None), sweeper := SweepRange t\<rparr>
   | _ \<Rightarrow> g)"

record health =
  h_code :: nat
  h_status :: string
  h_active :: int
  h_total :: int
  h_failed :: int
  h_timeouts :: int
  h_available :: nat
  h_max :: nat

definition HandleHealth :: "globals \<Rightarrow> health" where
  "HandleHealth g =
     \<lparr>h_code = (if length (workerPool g) = 0 then 429 else 200),
      h_status = (if length (workerPool g) = 0 then ''degraded'' else ''healthy''),
      h_active = sint (activeRequests g),
      h_total = sint (totalRequests g),
      h_failed = sint (failedRequests g),
      h_timeouts = sint (timeoutRequests g),
      h_available = length (workerPool g),
      h_max = maxWorkers g\<rparr>"

subsection \<open>The running system\<close>

text \<open>
  A state of the process is the shared variables and the request goroutines. An event is
  one atomic step of one of the goroutines of the process, the arrival of a request, or
  the passing of time. \<open>exec\<close> runs a schedule from the state \<open>init\<close> leaves; the
  schedules are all interleavings.
\<close>

record system =
  glob :: globals
  goroutines :: "goroutine list"

datatype event =
    NewRequest request
  | Step nat nat browser
  | Tick nat
  | CallShutdown
  | ShutdownLoop
  | Sweep sweepEvent

definition step :: "system \<Rightarrow> event \<Rightarrow> system" where
  "step s ev = (case ev of
     NewRequest r \<Rightarrow> s\<lparr>goroutines := goroutines s @ [spawn r]\<rparr>
   | Step t n br \<Rightarrow>
       (if t < length (goroutines s)
        then (case HandleScreenshot n br (glob s) (goroutines s ! t) of
                (g', th') \<Rightarrow> \<lparr>glob = g', goroutines = (goroutines s)[t := th']\<rparr>)
        else s)
   | Tick d \<Rightarrow> s\<lparr>glob := (glob s)\<lparr>clock := clock (glob s) + int d\<rparr>\<rparr>
   | CallShutdown \<Rightarrow> s\<lparr>glob := Shutdown_call (glob s)\<rparr>
   | ShutdownLoop \<Rightarrow> s\<lparr>glob := Shutdown_loop (glob s)\<rparr>
   | Sweep e \<Rightarrow> s\<lparr>glob := cleanupExpiredCache e (glob s)\<rparr>)"

definition start :: "(string \<Rightarrow> string) \<Rightarrow> system" where
  "start e = \<lparr>glob = init e, goroutines = []\<rparr>"

definition exec :: "(string \<Rightarrow> string) \<Rightarrow> event list \<Rightarrow> system" where
  "exec e evs = foldl step (start e) evs"

text \<open>The workers checked out: received from \<open>workerPool\<close> by a goroutine that has not
  yet sent them back.\<close>

fun holds :: "pc \<Rightarrow> nat list" where
  "holds (L134 w) = [w]"
| "holds (L299 w) = [w]"
| "holds (L340 w) = [w]"
| "holds (L302 w err) = [w]"
| "holds (L305 w) = [w]"
| "holds (L314 w buf) = [w]"
| "holds (L145 w) = [w]"
| "holds (L146 w) = [w]"
| "holds (L147 w) = [w]"
| "holds _ = []"

definition checkedOut :: "system \<Rightarrow> nat list" where
  "checkedOut s = concat (map (\<lambda>th. holds (pc th)) (goroutines s))"

section \<open>What a goroutine has done, by program point\<close>

text \<open>
  The accesses and the response that \<open>HandleScreenshot\<close> has produced when it
  reaches a program point are determined by the point, the locals and the outcome.
  \<open>thr_ok\<close> states this correspondence; it is an invariant of every goroutine.
\<close>

definition key :: "goroutine \<Rightarrow> string" where
  "key th = getCacheKey (url th) (width th) (height th)"

definition lookupPart :: "bool \<Rightarrow> goroutine \<Rightarrow> access list" where
  "lookupPart ce th = (if ce then [CacheLoad (key th)] else [])"

fun renderedPart :: "bool \<Rightarrow> string \<Rightarrow> runResult \<Rightarrow> access list" where
  "renderedPart ce k (RunErr DeadlineExceeded) = [AddFailed, AddTimeout]"
| "renderedPart ce k (RunErr OtherError) = [AddFailed]"
| "renderedPart ce k (RunOk buf) = (if ce \<and> buf \<noteq> [] then [CacheStore k] else [])"
| "renderedPart ce k RunPanic = []"

definition entered :: "bool \<Rightarrow> goroutine \<Rightarrow> access list" where
  "entered ce th = [AddTotal, AddActive] @ lookupPart ce th"

definition bodyTrace :: "bool \<Rightarrow> goroutine \<Rightarrow> access list" where
  "bodyTrace ce th = (case outcome th of
       Pending \<Rightarrow> []
     | BadRequest \<Rightarrow> [AddTotal, AddActive]
     | Hit e \<Rightarrow> [AddTotal, AddActive, CacheLoad (key th)]
     | NoWorker er \<Rightarrow> entered ce th @ [AcquireErr er, AddTimeout, AddFailed]
     | Captured w r \<Rightarrow> entered ce th @ [AcquireOk w, Rendered r] @ renderedPart ce (key th) r)"

fun bodyWriter :: "int \<Rightarrow> outcome \<Rightarrow> responseWriter" where
  "bodyWriter cd Pending = newWriter"
| "bodyWriter cd BadRequest = Error urlRequired 400 newWriter"
| "bodyWriter cd (Hit e) = okResponse cd ''HIT'' (data e) newWriter"
| "bodyWriter cd (NoWorker er) = Error ''Server busy, please retry later'' 503 newWriter"
| "bodyWriter cd (Captured w (RunErr DeadlineExceeded)) =
     Error ''Screenshot timeout - page took too long to load'' 408 newWriter"
| "bodyWriter cd (Captured w (RunErr OtherError)) = Error ''Error capturing screenshot'' 500 newWriter"
| "bodyWriter cd (Captured w (RunOk buf)) = okResponse cd ''MISS'' buf newWriter"
| "bodyWriter cd (Captured w RunPanic) = newWriter"

fun isPanic :: "outcome \<Rightarrow> bool" where
  "isPanic (Captured w RunPanic) = True"
| "isPanic _ = False"

fun releasePart :: "outcome \<Rightarrow> access list" where
  "releasePart (Captured w r) = [Release w, PoolSend w]"
| "releasePart _ = []"

definition recoverPart :: "outcome \<Rightarrow> access list" where
  "recoverPart oc = (if isPanic oc then [AddFailed] else [])"

definition finalWriter :: "int \<Rightarrow> outcome \<Rightarrow> responseWriter" where
  "finalWriter cd oc =
     (if isPanic oc then Error ''Internal server error'' 500 newWriter else bodyWriter cd oc)"

definition parsed :: "goroutine \<Rightarrow> bool" where
  "parsed th = (q_url (req th) \<noteq> [] \<and> url th = q_url (req th)
      \<and> width th = parseDim (q_width (req th)) 1280 3840
      \<and> height th = parseDim (q_height (req th)) 720 2160)"

definition decided :: "goroutine \<Rightarrow> bool" where
  "decided th = (case outcome th of
       Pending \<Rightarrow> False
     | BadRequest \<Rightarrow> q_url (req th) = []
     | _ \<Rightarrow> parsed th)"

fun capturedBy :: "nat \<Rightarrow> outcome \<Rightarrow> bool" where
  "capturedBy w (Captured w' r) = (w' = w)"
| "capturedBy w _ = False"

definition waiting :: "bool \<Rightarrow> goroutine \<Rightarrow> access list \<Rightarrow> bool" where
  "waiting ce th acs = (outcome th = Pending \<and> parsed th \<and> writer th = newWriter
      \<and> trace th = entered ce th @ acs)"

definition thr_ok :: "bool \<Rightarrow> int \<Rightarrow> goroutine \<Rightarrow> bool" where
  "thr_ok ce cd th = (panicking th = isPanic (outcome th) \<and> (case pc th of
       L235 \<Rightarrow> outcome th = Pending \<and> writer th = newWriter \<and> trace th = []
     | L236 \<Rightarrow> outcome th = Pending \<and> writer th = newWriter \<and> trace th = [AddTotal]
     | L238 \<Rightarrow> outcome th = Pending \<and> writer th = newWriter \<and> trace th = [AddTotal, AddActive]
     | L257 \<Rightarrow> outcome th = Pending \<and> parsed th \<and> writer th = newWriter
                \<and> trace th = [AddTotal, AddActive]
     | L261 e \<Rightarrow> ce \<and> waiting ce th []
     | L273 \<Rightarrow> waiting ce th []
     | L132 timerAt \<Rightarrow> waiting ce th []
     | L134 w \<Rightarrow> waiting ce th [AcquireOk w]
     | L299 w \<Rightarrow> waiting ce th [AcquireOk w]
     | L340 w \<Rightarrow> waiting ce th [AcquireOk w]
     | L291 \<Rightarrow> (case outcome th of
                   NoWorker er \<Rightarrow> parsed th \<and> writer th = newWriter
                       \<and> trace th = entered ce th @ [AcquireErr er]
                 | _ \<Rightarrow> False)
     | L292 \<Rightarrow> (case outcome th of
                   NoWorker er \<Rightarrow> parsed th \<and> writer th = newWriter
                       \<and> trace th = entered ce th @ [AcquireErr er, AddTimeout]
                 | _ \<Rightarrow> False)
     | L302 w err \<Rightarrow> outcome th = Captured w (RunErr err) \<and> parsed th \<and> writer th = newWriter
                \<and> trace th = entered ce th @ [AcquireOk w, Rendered (RunErr err)]
     | L305 w \<Rightarrow> outcome th = Captured w (RunErr DeadlineExceeded) \<and> parsed th
                \<and> writer th = newWriter
                \<and> trace th = entered ce th @ [AcquireOk w, Rendered (RunErr DeadlineExceeded), AddFailed]
     | L314 w buf \<Rightarrow> outcome th = Captured w (RunOk buf) \<and> parsed th \<and> writer th = newWriter
                \<and> trace th = entered ce th @ [AcquireOk w, Rendered (RunOk buf)]
     | L145 w \<Rightarrow> capturedBy w (outcome th) \<and> parsed th
                \<and> writer th = bodyWriter cd (outcome th) \<and> trace th = bodyTrace ce th
     | L146 w \<Rightarrow> capturedBy w (outcome th) \<and> parsed th
                \<and> writer th = bodyWriter cd (outcome th) \<and> trace th = bodyTrace ce th @ [Release w]
     | L147 w \<Rightarrow> capturedBy w (outcome th) \<and> parsed th
                \<and> writer th = bodyWriter cd (outcome th) \<and> trace th = bodyTrace ce th @ [Release w]
     | L227 \<Rightarrow> decided th \<and> writer th = bodyWriter cd (outcome th)
                \<and> trace th = bodyTrace ce th @ releasePart (outcome th)
     | L232 \<Rightarrow> decided th \<and> writer th = finalWriter cd (outcome th)
                \<and> trace th = bodyTrace ce th @ releasePart (outcome th) @ recoverPart (outcome th)
     | Done \<Rightarrow> decided th \<and> writer th = finalWriter cd (outcome th)
                \<and> trace th = bodyTrace ce th @ releasePart (outcome th) @ recoverPart (outcome th)
                              @ [SubActive]))"

text \<open>The invariant of the whole system: the workers in the channel and the workers
  checked out are together exactly the \<open>maxWorkers\<close> workers \<open>init\<close> created, the
  configuration is the one \<open>init\<close> computed, \<open>releaseWorker\<close> has never found the
  channel full, every goroutine satisfies \<open>thr_ok\<close>, and the counters count the
  accesses of the goroutines.\<close>

definition countAcc :: "access \<Rightarrow> goroutine list \<Rightarrow> nat" where
  "countAcc a ths = sum_list (map (\<lambda>th. count_list (trace th) a) ths)"

definition sys_ok :: "(string \<Rightarrow> string) \<Rightarrow> system \<Rightarrow> bool" where
  "sys_ok e s =
     (mset (workerPool (glob s)) + mset (checkedOut s) = mset [0..<initMaxWorkers e]
      \<and> maxWorkers (glob s) = initMaxWorkers e
      \<and> length (workers (glob s)) = initMaxWorkers e
      \<and> cacheEnabled (glob s) = cacheEnabled (init e)
      \<and> cacheDuration (glob s) = cacheDuration (init e)
      \<and> env (glob s) = e
      \<and> poolFullLog (glob s) = 0
      \<and> list_all (thr_ok (cacheEnabled (init e)) (cacheDuration (init e))) (goroutines s)
      \<and> totalRequests (glob s) = word_of_nat (countAcc AddTotal (goroutines s))
      \<and> failedRequests (glob s) = word_of_nat (countAcc AddFailed (goroutines s))
      \<and> timeoutRequests (glob s) = word_of_nat (countAcc AddTimeout (goroutines s))
      \<and> activeRequests (glob s) =
            word_of_nat (countAcc AddActive (goroutines s))
              - word_of_nat (countAcc SubActive (goroutines s)))"

section \<open>Reading the history of a goroutine\<close>

text \<open>The workers a goroutine received from \<open>getWorker\<close> and the workers it passed to
  \<open>releaseWorker\<close>, in the order of the calls.\<close>

fun acquiredOf :: "access \<Rightarrow> nat list" where
  "acquiredOf (AcquireOk w) = [w]"
| "acquiredOf _ = []"

fun releasedOf :: "access \<Rightarrow> nat list" where
  "releasedOf (Release w) = [w]"
| "releasedOf _ = []"

definition acquired :: "access list \<Rightarrow> nat list" where
  "acquired tr = concat (map acquiredOf tr)"

definition released :: "access list \<Rightarrow> nat list" where
  "released tr = concat (map releasedOf tr)"

section \<open>Example runs\<close>

text \<open>An environment that sets only \<open>MAX_CHROME_WORKERS=2\<close>, requests, browsers
  and some schedules. \<open>serve t br\<close> lets goroutine \<open>t\<close> take fifteen steps, which is
  enough for it to finish when nothing blocks it.\<close>

definition env2 :: "string \<Rightarrow> string" where
  "env2 name = (if name = ''MAX_CHROME_WORKERS'' then ''2'' else [])"

definition req0 :: request where
  "req0 = \<lparr>q_url = ''https://example.com'', q_width = ''800'', q_height = ''9999''\<rparr>"

definition noUrl :: request where
  "noUrl = \<lparr>q_url = [], q_width = ''abc'', q_height = []\<rparr>"

definition pngBrowser :: browser where
  "pngBrowser = ((1000000, Launched), \<lambda>a. (1000000, ActDone, ''PNG''))"

definition panicBrowser :: browser where
  "panicBrowser = ((1000000, Launched), \<lambda>a. (1000000, ActPanic, []))"

definition serve :: "nat \<Rightarrow> browser \<Rightarrow> event list" where
  "serve t br = [Step t 0 br, Step t 0 br, Step t 0 br, Step t 0 br, Step t 0 br,
     Step t 0 br, Step t 0 br, Step t 0 br, Step t 0 br, Step t 0 br,
     Step t 0 br, Step t 0 br, Step t 0 br, Step t 0 br, Step t 0 br]"

definition busyTwice :: "event list" where
  "busyTwice =
     [NewRequest req0, NewRequest req0, NewRequest req0] @ take 6 (serve 0 pngBrowser)
     @ take 6 (serve 1 pngBrowser) @ take 5 (serve 2 pngBrowser)
     @ [Tick 15000000000] @ take 10 (serve 2 pngBrowser)"

definition cache_ok :: "system \<Rightarrow> bool" where
  "cache_ok s = (\<forall>k entry. screenCache (glob s) k = Some entry \<longrightarrow>
       data entry \<noteq> []
     \<and> (\<exists>t<length (goroutines s). CacheStore k \<in> set (trace (goroutines s ! t))))"

definition emptyBrowser :: browser where
  "emptyBrowser = ((1000000, Launched), \<lambda>a. (1000000, ActDone, []))"

fun rank :: "pc \<Rightarrow> nat" where
  "rank L235 = 17"
| "rank L236 = 16"
| "rank L238 = 15"
| "rank L257 = 14"
| "rank (L261 entry) = 13"
| "rank L273 = 12"
| "rank (L132 timerAt) = 11"
| "rank (L134 w) = 10"
| "rank (L299 w) = 9"
| "rank (L340 w) = 8"
| "rank (L302 w err) = 7"
| "rank (L305 w) = 6"
| "rank (L314 w buf) = 6"
| "rank (L145 w) = 5"
| "rank (L146 w) = 4"
| "rank (L147 w) = 3"
| "rank L291 = 4"
| "rank L292 = 3"
| "rank L227 = 2"
| "rank L232 = 1"
| "rank Done = 0"

text \<open>One round: time passes (longer than any timer \<open>getWorker\<close> can set), then the
  goroutine takes a step with the given choice and browser.\<close>

definition round :: "nat \<Rightarrow> nat \<times> browser \<Rightarrow> event list" where
  "round t ob = [Tick (2 ^ 63), Step t (fst ob) (snd ob)]"

definition drive :: "nat \<Rightarrow> (nat \<times> browser) list \<Rightarrow> event list" where
  "drive t obs = concat (map (round t) obs)"

text \<open>Two further invariants, needed to see that a goroutine is never stuck: a timer set
  by \<open>getWorker\<close> fires at most \<open>maxDuration\<close> after now, and a worker's mutex is held
  only while a goroutine is inside \<open>captureScreenshot\<close> with that worker.\<close>

fun timerSoon :: "int \<Rightarrow> pc \<Rightarrow> bool" where
  "timerSoon c (L132 timerAt) = (timerAt \<le> c + maxDuration)"
| "timerSoon c _ = True"

definition live_ok :: "system \<Rightarrow> bool" where
  "live_ok s =
     (list_all (\<lambda>th. timerSoon (clock (glob s)) (pc th)) (goroutines s)
      \<and> (\<forall>j<length (workers (glob s)). mu (workers (glob s) ! j) \<longrightarrow>
            (\<exists>t<length (goroutines s). pc (goroutines s ! t) = L340 j)))"

definition seventeen :: "'a \<Rightarrow> 'a list" where
  "seventeen x = [x, x, x, x, x, x, x, x, x, x, x, x, x, x, x, x, x]"

definition slowBrowser :: browser where
  "slowBrowser = ((1000000, Launched),
     \<lambda>a. case a of Navigate u \<Rightarrow> (50000000000, ActDone, []) | _ \<Rightarrow> (1000000, ActDone, ''PNG''))"

section \<open>Facts about the library functions and the configuration\<close>

lemma seconds_range: "minDuration \<le> seconds v \<and> seconds v \<le> maxDuration"
proof -
  have "- (2 ^ 63) \<le> sint ((word_of_int v :: 64 word) * 1000000000)"
    using sint_ge [of "(word_of_int v :: 64 word) * 1000000000"] by simp
  moreover have "sint ((word_of_int v :: 64 word) * 1000000000) < 2 ^ 63"
    using sint_lt [of "(word_of_int v :: 64 word) * 1000000000"] by simp
  ultimately show ?thesis
    by (simp add: seconds_def minDuration_def maxDuration_def)
qed

lemma envSeconds_range:
  "minDuration \<le> d \<Longrightarrow> d \<le> maxDuration \<Longrightarrow>
   minDuration \<le> envSeconds e name d \<and> envSeconds e name d \<le> maxDuration"
  using seconds_range by (simp add: envSeconds_def Let_def split: option.splits)

lemma init_simps:
  "workerPool (init e) = [0..<initMaxWorkers e]"
  "maxWorkers (init e) = initMaxWorkers e"
  "workers (init e) = map (createWorker 0) [0..<initMaxWorkers e]"
  "shutdownOnce (init e) = OnceIdle"
  "shutdownChan (init e) = False"
  "activeRequests (init e) = 0"
  "totalRequests (init e) = 0"
  "failedRequests (init e) = 0"
  "timeoutRequests (init e) = 0"
  "screenCache (init e) = Map.empty"
  "cacheEnabled (init e) = (\<not> (e ''CACHE_ENABLED'' = ''false'' \<or> e ''CACHE_ENABLED'' = ''0''))"
  "cacheDuration (init e) = envSeconds e ''CACHE_DURATION_SECONDS'' 300000000000"
  "env (init e) = e"
  "clock (init e) = 0"
  "sweeper (init e) = SweepWait"
  "poolFullLog (init e) = 0"
  by (simp_all add: init_def Let_def)

lemma cacheDuration_init_range:
  "minDuration \<le> cacheDuration (init e) \<and> cacheDuration (init e) \<le> maxDuration"
  unfolding init_simps
  by (rule envSeconds_range) (simp_all add: minDuration_def maxDuration_def)

lemma Sub_less_iff: "u \<le> t \<Longrightarrow> ttl \<le> maxDuration \<Longrightarrow> Sub t u < ttl \<longleftrightarrow> t - u < ttl"
  by (auto simp: Sub_def Let_def minDuration_def maxDuration_def)

section \<open>Steps of a goroutine\<close>

lemma hs_config:
  "cacheEnabled (fst (HandleScreenshot n br g th)) = cacheEnabled g"
  "cacheDuration (fst (HandleScreenshot n br g th)) = cacheDuration g"
  "env (fst (HandleScreenshot n br g th)) = env g"
  "maxWorkers (fst (HandleScreenshot n br g th)) = maxWorkers g"
  "length (workers (fst (HandleScreenshot n br g th))) = length (workers g)"
  "shutdownChan (fst (HandleScreenshot n br g th)) = shutdownChan g"
  "shutdownOnce (fst (HandleScreenshot n br g th)) = shutdownOnce g"
  "clock (fst (HandleScreenshot n br g th)) = clock g"
  "sweeper (fst (HandleScreenshot n br g th)) = sweeper g"
  by (cases "pc th"; simp add: HandleScreenshot_def setWorker_def
        split: list.splits selCase.splits runResult.splits option.splits)+

lemma pick_in: "rs \<noteq> [] \<Longrightarrow> rs ! (n mod length rs) \<in> set rs"
  by simp

lemma readyCases_iff:
  "CaseWorker \<in> set (readyCases g timerAt) \<longleftrightarrow> workerPool g \<noteq> []"
  "CaseTimer \<in> set (readyCases g timerAt) \<longleftrightarrow> timerAt \<le> clock g"
  "CaseShutdown \<in> set (readyCases g timerAt) \<longleftrightarrow> shutdownChan g"
  by (simp_all add: readyCases_def)

lemma hs_select:
  assumes "pc th = L132 timerAt"
  obtains
    (blocked) "readyCases g timerAt = []" "HandleScreenshot n br g th = (g, th)"
  | (worker) w ws where "workerPool g = w # ws"
      "HandleScreenshot n br g th =
         (g\<lparr>workerPool := ws\<rparr>, logged (AcquireOk w) (th\<lparr>pc := L134 w\<rparr>))"
  | (timer) "timerAt \<le> clock g"
      "HandleScreenshot n br g th =
         (g, logged (AcquireErr NoWorkerAvailable)
               (th\<lparr>pc := L291, outcome := NoWorker NoWorkerAvailable\<rparr>))"
  | (shutdown) "shutdownChan g"
      "HandleScreenshot n br g th =
         (g, logged (AcquireErr ShuttingDown) (th\<lparr>pc := L291, outcome := NoWorker ShuttingDown\<rparr>))"
proof (cases "readyCases g timerAt")
  case Nil
  then show ?thesis using assms blocked by (simp add: HandleScreenshot_def)
next
  case (Cons c cs)
  define ch where "ch = (c # cs) ! (n mod length (c # cs))"
  have mem: "ch \<in> set (readyCases g timerAt)"
    unfolding ch_def Cons by (rule pick_in) simp
  have hs: "HandleScreenshot n br g th =
      (case ch of
         CaseWorker \<Rightarrow>
           (g\<lparr>workerPool := tl (workerPool g)\<rparr>,
            logged (AcquireOk (hd (workerPool g))) (th\<lparr>pc := L134 (hd (workerPool g))\<rparr>))
       | CaseTimer \<Rightarrow>
           (g, logged (AcquireErr NoWorkerAvailable)
                 (th\<lparr>pc := L291, outcome := NoWorker NoWorkerAvailable\<rparr>))
       | CaseShutdown \<Rightarrow>
           (g, logged (AcquireErr ShuttingDown)
                 (th\<lparr>pc := L291, outcome := NoWorker ShuttingDown\<rparr>)))"
    using assms Cons by (simp add: HandleScreenshot_def ch_def)
  show ?thesis
  proof (cases ch)
    case CaseWorker
    with mem have "workerPool g \<noteq> []" by (simp add: readyCases_iff)
    then obtain w ws where "workerPool g = w # ws" by (cases "workerPool g") auto
    then show ?thesis using hs CaseWorker worker by simp
  next
    case CaseTimer
    with mem have "timerAt \<le> clock g" by (simp add: readyCases_iff)
    then show ?thesis using hs CaseTimer timer by simp
  next
    case CaseShutdown
    with mem have "shutdownChan g" by (simp add: readyCases_iff)
    then show ?thesis using hs CaseShutdown shutdown by simp
  qed
qed

lemma hs_pool:
  assumes "\<And>w. pc th = L147 w \<Longrightarrow> length (workerPool g) < maxWorkers g"
  shows "mset (workerPool (fst (HandleScreenshot n br g th)))
           + mset (holds (pc (snd (HandleScreenshot n br g th))))
         = mset (workerPool g) + mset (holds (pc th))"
proof (cases "pc th")
  case (L132 timerAt)
  show ?thesis
    by (rule hs_select [OF L132, of g n br]) (simp_all add: logged_def L132)
next
  case (L147 w)
  then show ?thesis using assms [of w]
    by (simp add: HandleScreenshot_def logged_def)
qed (simp_all add: HandleScreenshot_def setWorker_def logged_def
       split: runResult.splits option.splits)

lemma isPanicE:
  assumes "isPanic oc"
  obtains w where "oc = Captured w RunPanic"
  using assms by (cases oc rule: isPanic.cases) simp_all

lemma hs_poolFull:
  assumes "\<And>w. pc th = L147 w \<Longrightarrow> length (workerPool g) < maxWorkers g"
  shows "poolFullLog (fst (HandleScreenshot n br g th)) = poolFullLog g"
proof (cases "pc th")
  case (L132 timerAt)
  show ?thesis
    by (rule hs_select [OF L132, of g n br]) simp_all
next
  case (L147 w)
  then show ?thesis using assms [of w]
    by (simp add: HandleScreenshot_def logged_def)
qed (simp_all add: HandleScreenshot_def setWorker_def logged_def
       split: runResult.splits option.splits)

lemma hs_thr_ok:
  assumes ok: "thr_ok (cacheEnabled g) (cacheDuration g) th"
    and room: "\<And>w. pc th = L147 w \<Longrightarrow> length (workerPool g) < maxWorkers g"
  shows "thr_ok (cacheEnabled g) (cacheDuration g) (snd (HandleScreenshot n br g th))"
proof (cases "pc th")
  case (L132 timerAt)
  then show ?thesis using ok
    by (rule_tac hs_select [of th timerAt g n br])
       (simp_all add: logged_def thr_ok_def waiting_def entered_def lookupPart_def parsed_def key_def)
next
  case (L147 w)
  then show ?thesis using ok room [of w]
    by (cases "outcome th")
       (simp_all add: HandleScreenshot_def logged_def thr_ok_def decided_def parsed_def
          bodyTrace_def key_def entered_def lookupPart_def)
next
  case (L340 w)
  then show ?thesis using ok
    by (auto simp: HandleScreenshot_def logged_def thr_ok_def waiting_def entered_def
          lookupPart_def parsed_def key_def bodyTrace_def
          split: runResult.splits)
next
  case (L145 w)
  then show ?thesis using ok
    by (simp add: HandleScreenshot_def logged_def thr_ok_def parsed_def bodyTrace_def key_def
          entered_def lookupPart_def
        split: outcome.splits)
next
  case (L146 w)
  then show ?thesis using ok
    by (simp add: HandleScreenshot_def logged_def thr_ok_def parsed_def bodyTrace_def key_def
          entered_def lookupPart_def
        split: outcome.splits)
next
  case L227
  show ?thesis
  proof (cases "isPanic (outcome th)")
    case True
    then obtain w where "outcome th = Captured w RunPanic"
      by (rule isPanicE)
    then show ?thesis using ok L227
      by (simp add: HandleScreenshot_def logged_def thr_ok_def decided_def parsed_def
            bodyTrace_def key_def recoverPart_def finalWriter_def entered_def lookupPart_def)
  next
    case False
    then show ?thesis using ok L227
      by (simp add: HandleScreenshot_def logged_def thr_ok_def decided_def parsed_def
            bodyTrace_def key_def recoverPart_def finalWriter_def entered_def lookupPart_def
          split: outcome.splits)
  qed
next
  case L232
  then show ?thesis using ok
    by (auto simp: HandleScreenshot_def logged_def thr_ok_def decided_def parsed_def
          bodyTrace_def key_def recoverPart_def finalWriter_def entered_def lookupPart_def
        split: outcome.splits)
next
  case (L302 w err)
  then show ?thesis using ok
    by (cases err)
       (simp_all add: HandleScreenshot_def logged_def thr_ok_def entered_def
          lookupPart_def parsed_def key_def bodyTrace_def)
next
  case Done
  then show ?thesis using ok
    by (simp add: HandleScreenshot_def)
qed (use ok in \<open>auto simp: HandleScreenshot_def logged_def thr_ok_def waiting_def entered_def
       lookupPart_def parsed_def key_def bodyTrace_def decided_def
     split: option.splits outcome.splits\<close>)

lemma hs_counters:
  "totalRequests (fst (HandleScreenshot n br g th)) + word_of_nat (count_list (trace th) AddTotal)
     = totalRequests g + word_of_nat (count_list (trace (snd (HandleScreenshot n br g th))) AddTotal)"
  "failedRequests (fst (HandleScreenshot n br g th)) + word_of_nat (count_list (trace th) AddFailed)
     = failedRequests g + word_of_nat (count_list (trace (snd (HandleScreenshot n br g th))) AddFailed)"
  "timeoutRequests (fst (HandleScreenshot n br g th)) + word_of_nat (count_list (trace th) AddTimeout)
     = timeoutRequests g + word_of_nat (count_list (trace (snd (HandleScreenshot n br g th))) AddTimeout)"
  "activeRequests (fst (HandleScreenshot n br g th))
       + word_of_nat (count_list (trace th) AddActive)
       + word_of_nat (count_list (trace (snd (HandleScreenshot n br g th))) SubActive)
     = activeRequests g
       + word_of_nat (count_list (trace (snd (HandleScreenshot n br g th))) AddActive)
       + word_of_nat (count_list (trace th) SubActive)"
proof (atomize (full), cases "pc th", goal_cases)
  case (7 timerAt)
  show ?case
    by (rule hs_select [OF 7, of g n br]) (simp_all add: logged_def)
qed (simp_all add: HandleScreenshot_def setWorker_def logged_def
       split: runResult.splits option.splits)

lemma countAcc_update:
  "t < length ths \<Longrightarrow>
   countAcc a (ths[t := th']) + count_list (trace (ths ! t)) a
     = countAcc a ths + count_list (trace th') a"
proof (induction ths arbitrary: t)
  case Nil
  then show ?case by simp
next
  case (Cons x xs)
  show ?case
  proof (cases t)
    case 0
    then show ?thesis by (simp add: countAcc_def)
  next
    case (Suc k)
    with Cons.prems have "k < length xs" by simp
    from Cons.IH [OF this] show ?thesis using Suc by (simp add: countAcc_def)
  qed
qed

lemma held_update:
  "t < length ths \<Longrightarrow>
   mset (concat (map (\<lambda>th. holds (pc th)) (ths[t := th']))) + mset (holds (pc (ths ! t)))
     = mset (concat (map (\<lambda>th. holds (pc th)) ths)) + mset (holds (pc th'))"
proof (induction ths arbitrary: t)
  case Nil
  then show ?case by simp
next
  case (Cons x xs)
  show ?case
  proof (cases t)
    case 0
    then show ?thesis by simp
  next
    case (Suc k)
    with Cons.prems have "k < length xs" by simp
    from Cons.IH [OF this] show ?thesis using Suc by simp
  qed
qed

lemma held_member:
  "t < length ths \<Longrightarrow> x \<in> set (holds (pc (ths ! t))) \<Longrightarrow>
   x \<in> set (concat (map (\<lambda>th. holds (pc th)) ths))"
proof -
  assume lt: "t < length ths" and x: "x \<in> set (holds (pc (ths ! t)))"
  from lt have "ths ! t \<in> set ths" by (rule nth_mem)
  with x show "x \<in> set (concat (map (\<lambda>th. holds (pc th)) ths))" by auto
qed

lemma word_count_step:
  fixes x x' :: "64 word"
  assumes "x' + word_of_nat c = x + word_of_nat c'"
    and "C' + c = C + c'"
    and "x = word_of_nat C"
  shows "x' = word_of_nat C'"
proof -
  have "x' + word_of_nat c = word_of_nat (C + c')"
    using assms(1,3) by simp
  also have "\<dots> = word_of_nat C' + word_of_nat c"
    using assms(2) [symmetric] by simp
  finally show ?thesis by simp
qed

lemma spawn_ok: "thr_ok ce cd (spawn r)"
  by (simp add: thr_ok_def spawn_def)

lemma sys_ok_start: "sys_ok e (start e)"
  by (simp add: sys_ok_def start_def init_simps checkedOut_def countAcc_def)

lemma sys_ok_room:
  assumes "sys_ok e s" "t < length (goroutines s)" "pc (goroutines s ! t) = L147 w"
  shows "length (workerPool (glob s)) < maxWorkers (glob s)"
proof -
  from assms(1) have eq: "mset (workerPool (glob s)) + mset (checkedOut s) = mset [0..<initMaxWorkers e]"
    and mx: "maxWorkers (glob s) = initMaxWorkers e"
    by (simp_all add: sys_ok_def)
  from eq have "size (mset (workerPool (glob s)) + mset (checkedOut s)) = size (mset [0..<initMaxWorkers e])"
    by simp
  then have len: "length (workerPool (glob s)) + length (checkedOut s) = initMaxWorkers e"
    by simp
  have "w \<in> set (checkedOut s)"
    using held_member [OF assms(2), of w] assms(3) by (simp add: checkedOut_def)
  then have "0 < length (checkedOut s)" by (cases "checkedOut s") auto
  with len mx show ?thesis by linarith
qed

lemma list_all_update:
  "list_all P xs \<Longrightarrow> P y \<Longrightarrow> list_all P (xs[t := y])"
  using set_update_subset_insert [of xs t y] by (auto simp: list_all_iff)

lemma word_gauge_step:
  fixes x x' :: "64 word"
  assumes "x' + word_of_nat a + word_of_nat b' = x + word_of_nat a' + word_of_nat b"
    and "A' + a = A + a'"
    and "B' + b = B + b'"
    and "x = word_of_nat A - word_of_nat B"
  shows "x' = word_of_nat A' - word_of_nat B'"
proof -
  have a: "(word_of_nat A' :: 64 word) + word_of_nat a = word_of_nat A + word_of_nat a'"
    using assms(2) by (metis of_nat_add)
  have b: "(word_of_nat B' :: 64 word) + word_of_nat b = word_of_nat B + word_of_nat b'"
    using assms(3) by (metis of_nat_add)
  have a': "(word_of_nat A' :: 64 word) = word_of_nat A + word_of_nat a' - word_of_nat a"
    using a by (simp add: eq_diff_eq)
  have b': "(word_of_nat B' :: 64 word) = word_of_nat B + word_of_nat b' - word_of_nat b"
    using b by (simp add: eq_diff_eq)
  have "x' = x + word_of_nat a' + word_of_nat b - word_of_nat a - word_of_nat b'"
    using assms(1) by (simp add: eq_diff_eq add.assoc add.commute add.left_commute)
  then show ?thesis
    unfolding a' b' assms(4) by simp
qed

lemma sys_ok_Step:
  assumes ok: "sys_ok e s" and lt: "t < length (goroutines s)"
  shows "sys_ok e (step s (Step t n br))"
proof -
  define g where "g = glob s"
  define ths where "ths = goroutines s"
  define th where "th = ths ! t"
  define g' where "g' = fst (HandleScreenshot n br g th)"
  define th' where "th' = snd (HandleScreenshot n br g th)"
  have st: "step s (Step t n br) = \<lparr>glob = g', goroutines = ths[t := th']\<rparr>"
    using lt by (simp add: step_def g_def ths_def th_def g'_def th'_def split: prod.splits)
  have lt': "t < length ths" using lt by (simp add: ths_def)
  have room: "\<And>w. pc th = L147 w \<Longrightarrow> length (workerPool g) < maxWorkers g"
    unfolding th_def ths_def g_def using sys_ok_room [OF ok lt] by simp
  from ok have pool: "mset (workerPool g) + mset (concat (map (\<lambda>th. holds (pc th)) ths))
        = mset [0..<initMaxWorkers e]"
    and cfg: "maxWorkers g = initMaxWorkers e" "length (workers g) = initMaxWorkers e"
      "cacheEnabled g = cacheEnabled (init e)" "cacheDuration g = cacheDuration (init e)" "env g = e"
    and pf: "poolFullLog g = 0"
    and thr: "list_all (thr_ok (cacheEnabled (init e)) (cacheDuration (init e))) ths"
    and cnt: "totalRequests g = word_of_nat (countAcc AddTotal ths)"
      "failedRequests g = word_of_nat (countAcc AddFailed ths)"
      "timeoutRequests g = word_of_nat (countAcc AddTimeout ths)"
      "activeRequests g = word_of_nat (countAcc AddActive ths) - word_of_nat (countAcc SubActive ths)"
    by (simp_all add: sys_ok_def g_def ths_def checkedOut_def)
  have p1: "mset (workerPool g') + mset (holds (pc th')) = mset (workerPool g) + mset (holds (pc th))"
    unfolding g'_def th'_def by (rule hs_pool) (rule room)
  have p2: "mset (concat (map (\<lambda>th. holds (pc th)) (ths[t := th']))) + mset (holds (pc th))
      = mset (concat (map (\<lambda>th. holds (pc th)) ths)) + mset (holds (pc th'))"
    unfolding th_def by (rule held_update [OF lt'])
  have "(mset (workerPool g') + mset (concat (map (\<lambda>th. holds (pc th)) (ths[t := th'])))) + mset (holds (pc th))
      = mset (workerPool g') + (mset (concat (map (\<lambda>th. holds (pc th)) ths)) + mset (holds (pc th')))"
    using p2 by (simp add: add.assoc)
  also have "\<dots> = (mset (workerPool g') + mset (holds (pc th'))) + mset (concat (map (\<lambda>th. holds (pc th)) ths))"
    by (simp add: ac_simps)
  also have "\<dots> = (mset (workerPool g) + mset (concat (map (\<lambda>th. holds (pc th)) ths))) + mset (holds (pc th))"
    using p1 by (simp add: ac_simps)
  finally have pool': "mset (workerPool g') + mset (concat (map (\<lambda>th. holds (pc th)) (ths[t := th'])))
      = mset [0..<initMaxWorkers e]"
    using pool by simp
  have cfg': "maxWorkers g' = initMaxWorkers e" "length (workers g') = initMaxWorkers e"
      "cacheEnabled g' = cacheEnabled (init e)" "cacheDuration g' = cacheDuration (init e)" "env g' = e"
    using cfg by (simp_all add: g'_def hs_config)
  have pf': "poolFullLog g' = 0"
    unfolding g'_def using hs_poolFull [of th g n br] room pf by simp
  have "thr_ok (cacheEnabled (init e)) (cacheDuration (init e)) th"
    using thr lt' by (simp add: th_def list_all_length)
  then have "thr_ok (cacheEnabled g) (cacheDuration g) th" using cfg by simp
  then have "thr_ok (cacheEnabled g) (cacheDuration g) th'"
    unfolding th'_def by (rule hs_thr_ok) (rule room)
  then have thr': "list_all (thr_ok (cacheEnabled (init e)) (cacheDuration (init e))) (ths[t := th'])"
    using thr cfg by (simp add: list_all_update)
  have c1: "totalRequests g' = word_of_nat (countAcc AddTotal (ths[t := th']))"
    using hs_counters(1) [of n br g th] countAcc_update [OF lt', of AddTotal th'] cnt(1)
    unfolding g'_def [symmetric] th'_def [symmetric] th_def [symmetric]
    by (rule word_count_step)
  have c2: "failedRequests g' = word_of_nat (countAcc AddFailed (ths[t := th']))"
    using hs_counters(2) [of n br g th] countAcc_update [OF lt', of AddFailed th'] cnt(2)
    unfolding g'_def [symmetric] th'_def [symmetric] th_def [symmetric]
    by (rule word_count_step)
  have c3: "timeoutRequests g' = word_of_nat (countAcc AddTimeout (ths[t := th']))"
    using hs_counters(3) [of n br g th] countAcc_update [OF lt', of AddTimeout th'] cnt(3)
    unfolding g'_def [symmetric] th'_def [symmetric] th_def [symmetric]
    by (rule word_count_step)
  have c4: "activeRequests g' = word_of_nat (countAcc AddActive (ths[t := th']))
      - word_of_nat (countAcc SubActive (ths[t := th']))"
    using hs_counters(4) [of n br g th] countAcc_update [OF lt', of AddActive th']
      countAcc_update [OF lt', of SubActive th'] cnt(4)
    unfolding g'_def [symmetric] th'_def [symmetric] th_def [symmetric]
    by (rule word_gauge_step)
  show ?thesis
    unfolding st sys_ok_def using pool' cfg' pf' thr' c1 c2 c3 c4
    by (simp add: checkedOut_def)
qed

lemma checkedOut_glob [simp]: "checkedOut (s\<lparr>glob := g\<rparr>) = checkedOut s"
  by (simp add: checkedOut_def)

lemma sys_ok_step:
  assumes ok: "sys_ok e s"
  shows "sys_ok e (step s ev)"
proof (cases ev)
  case (NewRequest r)
  then show ?thesis using ok
    by (simp add: step_def sys_ok_def checkedOut_def countAcc_def spawn_ok)
       (simp add: spawn_def)
next
  case (Step t n br)
  show ?thesis
  proof (cases "t < length (goroutines s)")
    case True
    then show ?thesis unfolding Step using ok by (intro sys_ok_Step)
  next
    case False
    then show ?thesis using ok Step by (simp add: step_def)
  qed
next
  case (Tick d)
  then show ?thesis using ok by (simp add: step_def sys_ok_def)
next
  case CallShutdown
  then show ?thesis using ok
    by (simp add: step_def sys_ok_def Shutdown_call_def split: onceState.splits)
next
  case ShutdownLoop
  then show ?thesis using ok
    by (simp add: step_def sys_ok_def Shutdown_loop_def setWorker_def split: onceState.splits)
next
  case (Sweep x)
  then show ?thesis using ok
    by (simp add: step_def sys_ok_def cleanupExpiredCache_def
          split: sweepPc.splits sweepEvent.splits option.splits)
qed

lemma exec_snoc: "exec e (evs @ [ev]) = step (exec e evs) ev"
  by (simp add: exec_def)

lemma exec_ok: "sys_ok e (exec e evs)"
proof (induction evs rule: rev_induct)
  case Nil
  show ?case by (simp add: exec_def sys_ok_start)
next
  case (snoc ev evs)
  then show ?case by (simp add: exec_snoc sys_ok_step)
qed

section \<open>Properties of every schedule\<close>

lemmas eval_defs = exec_def start_def step_def HandleScreenshot_def init_simps init_def Let_def
  initMaxWorkers_def env2_def req0_def pngBrowser_def panicBrowser_def serve_def spawn_def
  logged_def setWorker_def readyCases_def envSeconds_def parseDim_def Atoi_def decVal_def
  digitVal_def isDigit_def createWorker_def captureScreenshot_def captureTasks_def Run_def
  fresh_def cachePut_def okResponse_def Error_def Write_def WriteHeader_def Set_def Del_def
  newWriter_def seconds_def checkedOut_def acquired_def released_def

lemma thr_at:
  "t < length (goroutines (exec e evs)) \<Longrightarrow>
   thr_ok (cacheEnabled (init e)) (cacheDuration (init e)) (goroutines (exec e evs) ! t)"
  using exec_ok [of e evs] by (simp add: sys_ok_def list_all_length)

lemma done_shape:
  assumes "thr_ok ce cd th" "pc th = Done"
  shows "decided th" "writer th = finalWriter cd (outcome th)"
    "trace th = bodyTrace ce th @ releasePart (outcome th) @ recoverPart (outcome th) @ [SubActive]"
  using assms by (simp_all add: thr_ok_def)

text \<open>
  Claim C1. In every state the process can reach, under every interleaving of the
  request goroutines with each other, with \<open>Shutdown\<close>, with the cache sweep and with
  the clock: the workers in \<open>workerPool\<close> and the workers checked out (received by
  \<open>getWorker\<close> and not yet sent back by \<open>releaseWorker\<close>) number together exactly
  \<open>maxWorkers\<close>, the capacity \<open>init\<close> gave the pool; so at most \<open>maxWorkers\<close> are
  checked out. No worker is in two places, and \<open>releaseWorker\<close> never finds the channel
  full.
\<close>

theorem pool_bound:
  "length (workerPool (glob (exec e evs))) + length (checkedOut (exec e evs))
     = maxWorkers (glob (exec e evs))
   \<and> length (checkedOut (exec e evs)) \<le> maxWorkers (glob (exec e evs))
   \<and> maxWorkers (glob (exec e evs)) = initMaxWorkers e
   \<and> distinct (workerPool (glob (exec e evs)) @ checkedOut (exec e evs))
   \<and> poolFullLog (glob (exec e evs)) = 0"
proof -
  define s where "s = exec e evs"
  have ok: "sys_ok e s" unfolding s_def by (rule exec_ok)
  then have eq: "mset (workerPool (glob s) @ checkedOut s) = mset [0..<initMaxWorkers e]"
    and mx: "maxWorkers (glob s) = initMaxWorkers e"
    and pf: "poolFullLog (glob s) = 0"
    by (simp_all add: sys_ok_def)
  from eq have "size (mset (workerPool (glob s) @ checkedOut s)) = size (mset [0..<initMaxWorkers e])"
    by (rule arg_cong)
  then have len: "length (workerPool (glob s)) + length (checkedOut s) = initMaxWorkers e"
    by simp
  have "distinct [0..<initMaxWorkers e]" by simp
  with eq have "distinct (workerPool (glob s) @ checkedOut s)"
    by (metis mset_eq_imp_distinct_iff)
  with len mx pf show ?thesis unfolding s_def [symmetric] by simp
qed

theorem pool_bound_witness:
  "length (workerPool (glob (exec env2 (NewRequest req0 # take 6 (serve 0 pngBrowser)))))
     + length (checkedOut (exec env2 (NewRequest req0 # take 6 (serve 0 pngBrowser)))) = 2
   \<and> checkedOut (exec env2 (NewRequest req0 # take 6 (serve 0 pngBrowser))) = [0]"
  using pool_bound [of env2 "NewRequest req0 # take 6 (serve 0 pngBrowser)"]
  by (simp add: eval_defs upt_rec)

lemma writer_codes:
  "code (Error msg c newWriter) = Some c"
  "code (okResponse cd x payload newWriter) = Some 200"
  "header (okResponse cd x payload newWriter) ''X-Cache'' = Some x"
  "header (okResponse cd x payload newWriter) ''Content-Type'' = Some ''image/png''"
  "header (okResponse cd x payload newWriter) ''Cache-Control''
     = Some (''public, max-age='' @ showInt (wholeSeconds cd))"
  "body (okResponse cd x payload newWriter) = payload"
  "body (Error msg c newWriter) = msg @ [CHR 0x0A]"
  by (simp_all add: Error_def okResponse_def Write_def WriteHeader_def Set_def Del_def
        newWriter_def Let_def)

text \<open>The response of a goroutine that has returned.\<close>

lemma responses_at_return:
  assumes "t < length (goroutines (exec e evs))"
    and "pc (goroutines (exec e evs) ! t) = Done"
  defines "th \<equiv> goroutines (exec e evs) ! t"
  shows "(q_url (req th) = [] \<longleftrightarrow> code (writer th) = Some 400)
    \<and> (\<forall>er. outcome th = NoWorker er \<longrightarrow> code (writer th) = Some 503)
    \<and> (\<forall>w. outcome th = Captured w (RunErr DeadlineExceeded) \<longrightarrow> code (writer th) = Some 408)
    \<and> (\<forall>w. outcome th = Captured w (RunErr OtherError) \<longrightarrow> code (writer th) = Some 500)
    \<and> (\<forall>w. outcome th = Captured w RunPanic \<longrightarrow> code (writer th) = Some 500)
    \<and> (\<forall>w buf. outcome th = Captured w (RunOk buf) \<longrightarrow>
          code (writer th) = Some 200 \<and> header (writer th) ''X-Cache'' = Some ''MISS''
          \<and> body (writer th) = buf)
    \<and> (\<forall>entry. outcome th = Hit entry \<longrightarrow>
          code (writer th) = Some 200 \<and> header (writer th) ''X-Cache'' = Some ''HIT''
          \<and> body (writer th) = data entry)
    \<and> (code (writer th) = Some 200 \<longrightarrow>
          header (writer th) ''Content-Type'' = Some ''image/png''
          \<and> header (writer th) ''Cache-Control''
              = Some (''public, max-age='' @ showInt (wholeSeconds (cacheDuration (init e))))
          \<and> (header (writer th) ''X-Cache'' = Some ''HIT''
               \<or> header (writer th) ''X-Cache'' = Some ''MISS''))
    \<and> code (writer th) \<in> {Some 200, Some 400, Some 408, Some 500, Some 503}
    \<and> (q_url (req th) = [] \<longleftrightarrow> outcome th = BadRequest)
    \<and> outcome th \<noteq> Pending"
proof -
  have ok: "thr_ok (cacheEnabled (init e)) (cacheDuration (init e)) th"
    unfolding th_def using assms(1) by (rule thr_at)
  have pc: "pc th = Done" using assms(2) by (simp add: th_def)
  note d = done_shape(1,2) [OF ok pc]
  show ?thesis
  proof (cases "outcome th")
    case (Captured w r)
    show ?thesis
    proof (cases r)
      case (RunErr err)
      then show ?thesis using d Captured
        by (cases err) (simp_all add: decided_def parsed_def finalWriter_def writer_codes)
    qed (use d Captured in \<open>simp_all add: decided_def parsed_def finalWriter_def writer_codes\<close>)
  qed (use d in \<open>simp_all add: decided_def parsed_def finalWriter_def writer_codes\<close>)
qed


lemma count_le_countAcc:
  "t < length ths \<Longrightarrow> count_list (trace (ths ! t)) a \<le> countAcc a ths"
proof (induction ths arbitrary: t)
  case Nil
  then show ?case by simp
next
  case (Cons x xs)
  show ?case
  proof (cases t)
    case 0
    then show ?thesis by (simp add: countAcc_def)
  next
    case (Suc k)
    with Cons.prems have "k < length xs" by simp
    from Cons.IH [OF this] show ?thesis using Suc by (simp add: countAcc_def)
  qed
qed

text \<open>The counters, and a goroutine that has returned after \<open>getWorker\<close> failed.\<close>

lemma refused_at_return:
  assumes "t < length (goroutines (exec e evs))"
    and "pc (goroutines (exec e evs) ! t) = Done"
    and "outcome (goroutines (exec e evs) ! t) = NoWorker er"
  shows "count_list (trace (goroutines (exec e evs) ! t)) AddTimeout = 1
    \<and> count_list (trace (goroutines (exec e evs) ! t)) AddFailed = 1
    \<and> timeoutRequests (glob (exec e evs)) = word_of_nat (countAcc AddTimeout (goroutines (exec e evs)))
    \<and> failedRequests (glob (exec e evs)) = word_of_nat (countAcc AddFailed (goroutines (exec e evs)))
    \<and> 1 \<le> countAcc AddTimeout (goroutines (exec e evs))
    \<and> 1 \<le> countAcc AddFailed (goroutines (exec e evs))
    \<and> h_failed (HandleHealth (glob (exec e evs)))
         = sint (word_of_nat (countAcc AddFailed (goroutines (exec e evs))) :: 64 word)
    \<and> h_timeouts (HandleHealth (glob (exec e evs)))
         = sint (word_of_nat (countAcc AddTimeout (goroutines (exec e evs))) :: 64 word)"
proof -
  define th where "th = goroutines (exec e evs) ! t"
  define ce where "ce = cacheEnabled (init e)"
  have ok: "thr_ok ce (cacheDuration (init e)) th"
    unfolding th_def ce_def using assms(1) by (rule thr_at)
  have tr: "trace th = bodyTrace ce th @ releasePart (outcome th) @ recoverPart (outcome th) @ [SubActive]"
    using done_shape(3) [OF ok] assms(2) by (simp add: th_def)
  have oc: "outcome th = NoWorker er" using assms(3) by (simp add: th_def)
  have c1: "count_list (trace th) AddTimeout = 1" and c2: "count_list (trace th) AddFailed = 1"
    unfolding tr by (simp_all add: oc bodyTrace_def entered_def lookupPart_def recoverPart_def)
  have sys: "sys_ok e (exec e evs)" by (rule exec_ok)
  then have g1: "timeoutRequests (glob (exec e evs)) = word_of_nat (countAcc AddTimeout (goroutines (exec e evs)))"
    and g2: "failedRequests (glob (exec e evs)) = word_of_nat (countAcc AddFailed (goroutines (exec e evs)))"
    by (simp_all add: sys_ok_def)
  have l1: "1 \<le> countAcc AddTimeout (goroutines (exec e evs))"
    using count_le_countAcc [OF assms(1), of AddTimeout] c1 by (simp add: th_def)
  have l2: "1 \<le> countAcc AddFailed (goroutines (exec e evs))"
    using count_le_countAcc [OF assms(1), of AddFailed] c2 by (simp add: th_def)
  show ?thesis
    using c1 c2 g1 g2 l1 l2 by (simp add: th_def HandleHealth_def)
qed

lemma parseDim_default:
  "Atoi s = None \<or> (\<exists>v. Atoi s = Some v \<and> (v \<le> 0 \<or> bound < v)) \<Longrightarrow> parseDim s dflt bound = dflt"
  by (auto simp: parseDim_def)

lemma parseDim_accept:
  "Atoi s = Some v \<Longrightarrow> 0 < v \<Longrightarrow> v \<le> bound \<Longrightarrow> parseDim s dflt bound = v"
  by (auto simp: parseDim_def Atoi_def)

lemma no_url_pcs:
  assumes "thr_ok ce cd th" "q_url (req th) = []"
  shows "pc th \<in> {L235, L236, L238, L227, L232, Done}"
    and "outcome th = Pending \<or> outcome th = BadRequest"
  using assms
  by (cases "pc th"; cases "outcome th";
      simp add: thr_ok_def waiting_def parsed_def decided_def)+

text \<open>A goroutine whose request has no \<open>url\<close>, and the parsed dimensions.\<close>

lemma validation_at_state:
  assumes "t < length (goroutines (exec e evs))"
  defines "s \<equiv> exec e evs"
  defines "th \<equiv> goroutines (exec e evs) ! t"
  shows "(q_url (req th) = [] \<longrightarrow>
            screenCache (glob (step s (Step t n br))) = screenCache (glob s)
          \<and> workerPool (glob (step s (Step t n br))) = workerPool (glob s)
          \<and> workers (glob (step s (Step t n br))) = workers (glob s)
          \<and> trace th = take (length (trace th)) [AddTotal, AddActive, SubActive]
          \<and> (pc th = Done \<longrightarrow> code (writer th) = Some 400
                \<and> trace th = [AddTotal, AddActive, SubActive]))
    \<and> (q_url (req th) \<noteq> [] \<longrightarrow> pc th \<in> {L235, L236, L238}
          \<or> (width th = parseDim (q_width (req th)) 1280 3840
              \<and> height th = parseDim (q_height (req th)) 720 2160
              \<and> (Atoi (q_width (req th)) = None
                   \<or> (\<exists>v. Atoi (q_width (req th)) = Some v \<and> (v \<le> 0 \<or> 3840 < v))
                  \<longrightarrow> width th = 1280)
              \<and> (Atoi (q_height (req th)) = None
                   \<or> (\<exists>v. Atoi (q_height (req th)) = Some v \<and> (v \<le> 0 \<or> 2160 < v))
                  \<longrightarrow> height th = 720)
              \<and> (pc th = Done \<longrightarrow> code (writer th) \<noteq> Some 400)))"
proof -
  have ok: "thr_ok (cacheEnabled (init e)) (cacheDuration (init e)) th"
    unfolding th_def using assms(1) by (rule thr_at)
  have lt: "t < length (goroutines s)" using assms(1) by (simp add: s_def)
  have st: "glob (step s (Step t n br)) = fst (HandleScreenshot n br (glob s) th)"
    using lt by (simp add: step_def th_def s_def split: prod.splits)
  have first: ?thesis if nourl: "q_url (req th) = []"
  proof -
    note pcs = no_url_pcs [OF ok nourl]
    have unchanged: "screenCache (fst (HandleScreenshot n br (glob s) th)) = screenCache (glob s)
        \<and> workerPool (fst (HandleScreenshot n br (glob s) th)) = workerPool (glob s)
        \<and> workers (fst (HandleScreenshot n br (glob s) th)) = workers (glob s)"
      using pcs(1) nourl by (auto simp: HandleScreenshot_def logged_def)
    have tr: "trace th = take (length (trace th)) [AddTotal, AddActive, SubActive]
        \<and> (pc th = Done \<longrightarrow> code (writer th) = Some 400 \<and> trace th = [AddTotal, AddActive, SubActive])"
      using pcs ok
      by (auto simp: thr_ok_def decided_def bodyTrace_def recoverPart_def finalWriter_def
            writer_codes)
    show ?thesis using unchanged tr nourl st by simp
  qed
  have second: ?thesis if url: "q_url (req th) \<noteq> []"
  proof (cases "pc th \<in> {L235, L236, L238}")
    case True
    then show ?thesis using url by simp
  next
    case False
    have notbad: "outcome th \<noteq> BadRequest"
      using ok url False
      by (cases "pc th"; cases "outcome th"; simp add: thr_ok_def waiting_def decided_def)
    have p: "parsed th"
      using ok False notbad
      by (cases "pc th"; cases "outcome th"; simp add: thr_ok_def waiting_def decided_def)
    have w: "width th = parseDim (q_width (req th)) 1280 3840"
      and h: "height th = parseDim (q_height (req th)) 720 2160"
      using p by (simp_all add: parsed_def)
    have c: "pc th = Done \<longrightarrow> code (writer th) \<noteq> Some 400"
    proof
      assume "pc th = Done"
      with responses_at_return [OF assms(1)] url show "code (writer th) \<noteq> Some 400"
        by (simp add: th_def)
    qed
    show ?thesis using url w h c
      by (auto simp: parseDim_default)
  qed
  from first second show ?thesis by blast
qed

lemma hs_trace_mono:
  "set (trace th) \<subseteq> set (trace (snd (HandleScreenshot n br g th)))"
proof (cases "pc th")
  case (L132 timerAt)
  show ?thesis
    by (rule hs_select [OF L132, of g n br]) (auto simp: logged_def)
qed (auto simp: HandleScreenshot_def logged_def split: runResult.splits option.splits)

lemma hs_cache:
  "screenCache (fst (HandleScreenshot n br g th)) = screenCache g
   \<or> (\<exists>k entry. data entry \<noteq> []
        \<and> screenCache (fst (HandleScreenshot n br g th)) = (screenCache g)(k \<mapsto> entry)
        \<and> CacheStore k \<in> set (trace (snd (HandleScreenshot n br g th))))"
proof (cases "pc th")
  case (L132 timerAt)
  show ?thesis
    by (rule hs_select [OF L132, of g n br]) simp_all
next
  case (L314 w buf)
  show ?thesis
  proof (cases "cacheEnabled g \<and> 0 < length buf")
    case True
    have "data \<lparr>data = buf, timestamp = clock g\<rparr> \<noteq> []
        \<and> screenCache (fst (HandleScreenshot n br g th))
            = (screenCache g)(getCacheKey (url th) (width th) (height th)
                 \<mapsto> \<lparr>data = buf, timestamp = clock g\<rparr>)
        \<and> CacheStore (getCacheKey (url th) (width th) (height th))
            \<in> set (trace (snd (HandleScreenshot n br g th)))"
      using True L314 by (simp add: HandleScreenshot_def logged_def cachePut_def)
    then show ?thesis by blast
  next
    case False
    then show ?thesis using L314 by (auto simp: HandleScreenshot_def)
  qed
qed (simp_all add: HandleScreenshot_def logged_def setWorker_def
       split: runResult.splits option.splits)

lemma cache_ok_Step:
  assumes ok: "cache_ok s" and lt: "t < length (goroutines s)"
  shows "cache_ok (step s (Step t n br))"
proof -
  define g where "g = glob s"
  define ths where "ths = goroutines s"
  define th where "th = ths ! t"
  define g' where "g' = fst (HandleScreenshot n br g th)"
  define th' where "th' = snd (HandleScreenshot n br g th)"
  have st: "step s (Step t n br) = \<lparr>glob = g', goroutines = ths[t := th']\<rparr>"
    using lt by (simp add: step_def g_def ths_def th_def g'_def th'_def split: prod.splits)
  have lt': "t < length ths" using lt by (simp add: ths_def)
  have mono: "set (trace th) \<subseteq> set (trace th')"
    unfolding th'_def by (rule hs_trace_mono)
  have keep: "\<exists>j<length (ths[t := th']). CacheStore k \<in> set (trace (ths[t := th'] ! j))"
    if "\<exists>j<length ths. CacheStore k \<in> set (trace (ths ! j))" for k
  proof -
    from that obtain j where j: "j < length ths" "CacheStore k \<in> set (trace (ths ! j))" by blast
    show ?thesis
    proof (cases "j = t")
      case True
      with j mono have "CacheStore k \<in> set (trace th')" by (auto simp: th_def)
      with lt' show ?thesis by (intro exI [of _ t]) simp
    next
      case False
      with j show ?thesis by (intro exI [of _ j]) simp
    qed
  qed
  have old: "data entry \<noteq> [] \<and> (\<exists>j<length ths. CacheStore k \<in> set (trace (ths ! j)))"
    if "screenCache g k = Some entry" for k entry
    using ok that by (simp add: cache_ok_def g_def ths_def)
  from hs_cache [of n br g th]
  consider (same) "screenCache g' = screenCache g"
    | (stored) k entry where "data entry \<noteq> []" "screenCache g' = (screenCache g)(k \<mapsto> entry)"
        "CacheStore k \<in> set (trace th')"
    unfolding g'_def th'_def by blast
  then show ?thesis
  proof cases
    case same
    then show ?thesis unfolding st cache_ok_def using old keep by simp
  next
    case stored
    have new: "\<exists>j<length (ths[t := th']). CacheStore k \<in> set (trace (ths[t := th'] ! j))"
      using lt' stored(3) by (intro exI [of _ t]) simp
    show ?thesis unfolding st cache_ok_def
    proof (intro allI impI)
      fix k' entry'
      assume a: "screenCache (glob \<lparr>glob = g', goroutines = ths[t := th']\<rparr>) k' = Some entry'"
      show "data entry' \<noteq> [] \<and>
        (\<exists>j<length (goroutines \<lparr>glob = g', goroutines = ths[t := th']\<rparr>).
            CacheStore k' \<in> set (trace (goroutines \<lparr>glob = g', goroutines = ths[t := th']\<rparr> ! j)))"
      proof (cases "k' = k")
        case True
        with a stored new show ?thesis by simp
      next
        case False
        with a stored have "screenCache g k' = Some entry'" by simp
        from old [OF this] keep [of k'] show ?thesis by simp
      qed
    qed
  qed
qed

lemma cache_ok_step:
  assumes ok: "cache_ok s"
  shows "cache_ok (step s ev)"
proof (cases ev)
  case (NewRequest r)
  have "\<exists>j<Suc (length (goroutines s)). CacheStore k \<in> set (trace ((goroutines s @ [spawn r]) ! j))"
    if "\<exists>j<length (goroutines s). CacheStore k \<in> set (trace (goroutines s ! j))" for k
  proof -
    from that obtain j where "j < length (goroutines s)" "CacheStore k \<in> set (trace (goroutines s ! j))"
      by blast
    then show ?thesis by (intro exI [of _ j]) (simp add: nth_append)
  qed
  then show ?thesis using ok NewRequest
    by (simp add: step_def cache_ok_def)
next
  case (Step t n br)
  show ?thesis
  proof (cases "t < length (goroutines s)")
    case True
    then show ?thesis unfolding Step using ok by (intro cache_ok_Step)
  next
    case False
    then show ?thesis using ok Step by (simp add: step_def)
  qed
next
  case (Tick d)
  then show ?thesis using ok by (simp add: step_def cache_ok_def)
next
  case CallShutdown
  then show ?thesis using ok
    by (simp add: step_def cache_ok_def Shutdown_call_def split: onceState.splits)
next
  case ShutdownLoop
  then show ?thesis using ok
    by (simp add: step_def cache_ok_def Shutdown_loop_def setWorker_def split: onceState.splits)
next
  case (Sweep x)
  then show ?thesis using ok
    by (simp add: step_def cache_ok_def cleanupExpiredCache_def
          split: sweepPc.splits sweepEvent.splits option.splits)
qed

lemma exec_cache_ok: "cache_ok (exec e evs)"
proof (induction evs rule: rev_induct)
  case Nil
  show ?case by (simp add: exec_def start_def cache_ok_def init_simps)
next
  case (snoc ev evs)
  then show ?case by (simp add: exec_snoc cache_ok_step)
qed

lemma empty_capture_trace:
  assumes "thr_ok ce cd th" "outcome th = Captured w (RunOk [])"
  shows "CacheStore k \<notin> set (trace th)"
    and "pc th = Done \<longrightarrow> writer th = okResponse cd ''MISS'' [] newWriter"
    and "pc th \<in> {L314 w [], L145 w, L146 w, L147 w, L227, L232, Done}"
  using assms
  by (cases "pc th";
      simp add: thr_ok_def waiting_def bodyTrace_def entered_def lookupPart_def recoverPart_def
        finalWriter_def)+

lemma rank_Done: "rank p = 0 \<longleftrightarrow> p = Done"
  by (cases p) simp_all

lemma rank_le: "rank p \<le> 17"
  by (cases p) simp_all

lemma hs_timer:
  assumes "timerSoon (clock g) (pc th)"
  shows "timerSoon (clock g) (pc (snd (HandleScreenshot n br g th)))"
proof (cases "pc th")
  case (L132 timerAt)
  show ?thesis using assms
    by (rule_tac hs_select [OF L132, of g n br]) (simp_all add: logged_def L132)
next
  case L273
  have "envSeconds (env g) ''WORKER_TIMEOUT'' (15 * 1000000000) \<le> maxDuration"
    using envSeconds_range [of "15 * 1000000000" "env g" "''WORKER_TIMEOUT''"]
    by (simp add: minDuration_def maxDuration_def)
  moreover have "0 \<le> maxDuration" by (simp add: maxDuration_def)
  ultimately show ?thesis using L273
    by (simp add: HandleScreenshot_def)
qed (simp_all add: HandleScreenshot_def logged_def split: runResult.splits option.splits)

lemma timerSoon_mono: "timerSoon c p \<Longrightarrow> c \<le> c' \<Longrightarrow> timerSoon c' p"
  by (cases p) simp_all

lemma nth_update_field:
  assumes "\<And>x. f (u x) = f x"
  shows "f ((xs[i := u (xs ! i)]) ! j) = f (xs ! j)"
proof (cases "i < length xs")
  case True
  then show ?thesis using assms by (simp add: nth_list_update)
next
  case False
  then have "xs[i := u (xs ! i)] = xs" by (simp add: list_update_beyond)
  then show ?thesis by simp
qed

lemma nth_update_mu:
  "mu ((xs[i := (xs ! i)\<lparr>mu := b\<rparr>]) ! j) \<Longrightarrow> j < length xs \<Longrightarrow> (i = j \<and> b) \<or> (i \<noteq> j \<and> mu (xs ! j))"
  by (cases "i < length xs") (auto simp: nth_list_update split: if_splits)

lemma hs_mu:
  assumes "j < length (workers g)" "mu (workers (fst (HandleScreenshot n br g th)) ! j)"
  shows "(mu (workers g ! j) \<and> pc th \<noteq> L340 j) \<or> pc (snd (HandleScreenshot n br g th)) = L340 j"
proof (cases "pc th")
  case (L132 timerAt)
  show ?thesis using assms
    by (rule_tac hs_select [OF L132, of g n br]) (simp_all add: L132)
qed (use assms in \<open>auto simp: HandleScreenshot_def logged_def setWorker_def nth_update_field
       dest: nth_update_mu split: runResult.splits option.splits if_splits\<close>)

lemma live_ok_Step:
  assumes ok: "live_ok s" and lt: "t < length (goroutines s)"
  shows "live_ok (step s (Step t n br))"
proof -
  define g where "g = glob s"
  define ths where "ths = goroutines s"
  define th where "th = ths ! t"
  define g' where "g' = fst (HandleScreenshot n br g th)"
  define th' where "th' = snd (HandleScreenshot n br g th)"
  have st: "step s (Step t n br) = \<lparr>glob = g', goroutines = ths[t := th']\<rparr>"
    using lt by (simp add: step_def g_def ths_def th_def g'_def th'_def split: prod.splits)
  have lt': "t < length ths" using lt by (simp add: ths_def)
  from ok have tm: "list_all (\<lambda>th. timerSoon (clock g) (pc th)) ths"
    and mu: "\<And>j. j < length (workers g) \<Longrightarrow> mu (workers g ! j) \<Longrightarrow>
              \<exists>k<length ths. pc (ths ! k) = L340 j"
    by (simp_all add: live_ok_def g_def ths_def)
  have "timerSoon (clock g) (pc th)" using tm lt' by (simp add: th_def list_all_length)
  then have "timerSoon (clock g) (pc th')" unfolding th'_def by (rule hs_timer)
  then have tm': "list_all (\<lambda>th. timerSoon (clock g') (pc th)) (ths[t := th'])"
    using tm by (simp add: g'_def hs_config list_all_update)
  have mu': "\<exists>k<length (ths[t := th']). pc (ths[t := th'] ! k) = L340 j"
    if j: "j < length (workers g')" and m: "mu (workers g' ! j)" for j
  proof -
    have j': "j < length (workers g)" using j by (simp add: g'_def hs_config)
    from hs_mu [OF j', of n br th] m
    consider (old) "mu (workers g ! j)" "pc th \<noteq> L340 j" | (new) "pc th' = L340 j"
      unfolding g'_def th'_def by blast
    then show ?thesis
    proof cases
      case old
      from mu [OF j' old(1)] obtain k where k: "k < length ths" "pc (ths ! k) = L340 j" by blast
      with old(2) have "k \<noteq> t" by (auto simp: th_def)
      with k show ?thesis by (intro exI [of _ k]) simp
    next
      case new
      with lt' show ?thesis by (intro exI [of _ t]) simp
    qed
  qed
  show ?thesis unfolding st live_ok_def using tm' mu' by simp
qed

lemma live_ok_step:
  assumes ok: "live_ok s"
  shows "live_ok (step s ev)"
proof (cases ev)
  case (NewRequest r)
  have "\<exists>k<Suc (length (goroutines s)). pc ((goroutines s @ [spawn r]) ! k) = L340 j"
    if "\<exists>k<length (goroutines s). pc (goroutines s ! k) = L340 j" for j
  proof -
    from that obtain k where "k < length (goroutines s)" "pc (goroutines s ! k) = L340 j" by blast
    then show ?thesis by (intro exI [of _ k]) (simp add: nth_append)
  qed
  then show ?thesis using ok NewRequest
    by (simp add: step_def live_ok_def spawn_def)
next
  case (Step t n br)
  show ?thesis
  proof (cases "t < length (goroutines s)")
    case True
    then show ?thesis unfolding Step using ok by (intro live_ok_Step)
  next
    case False
    then show ?thesis using ok Step by (simp add: step_def)
  qed
next
  case (Tick d)
  have "list_all (\<lambda>th. timerSoon (clock (glob s) + int d) (pc th)) (goroutines s)"
    if "list_all (\<lambda>th. timerSoon (clock (glob s)) (pc th)) (goroutines s)"
    using that by (auto simp: list_all_iff intro: timerSoon_mono)
  then show ?thesis using ok Tick by (simp add: step_def live_ok_def)
next
  case CallShutdown
  then show ?thesis using ok
    by (simp add: step_def live_ok_def Shutdown_call_def split: onceState.splits)
next
  case ShutdownLoop
  then show ?thesis using ok
    by (auto simp: step_def live_ok_def Shutdown_loop_def setWorker_def nth_update_field
          split: onceState.splits)
next
  case (Sweep x)
  then show ?thesis using ok
    by (simp add: step_def live_ok_def cleanupExpiredCache_def
          split: sweepPc.splits sweepEvent.splits option.splits)
qed

lemma exec_append: "exec e (evs @ evs') = foldl step (exec e evs) evs'"
  by (simp add: exec_def)

lemma exec_live_ok: "live_ok (exec e evs)"
proof (induction evs rule: rev_induct)
  case Nil
  show ?case by (simp add: exec_def start_def live_ok_def init_simps createWorker_def)
next
  case (snoc ev evs)
  then show ?case by (simp add: exec_snoc live_ok_step)
qed

lemma two_holders:
  assumes "i < j" "j < length ths"
    and "w \<in> set (holds (pc (ths ! i)))" "w \<in> set (holds (pc (ths ! j)))"
  shows "\<not> distinct (concat (map (\<lambda>th. holds (pc th)) ths))"
proof -
  have split: "ths = take j ths @ ths ! j # drop (Suc j) ths"
    using assms(2) by (rule id_take_nth_drop)
  have "ths ! i \<in> set (take j ths)"
    using assms(1,2) by (metis in_set_conv_nth length_take min.absorb2 nth_take order_less_imp_le)
  with assms(3) have a: "w \<in> set (concat (map (\<lambda>th. holds (pc th)) (take j ths)))" by auto
  have "concat (map (\<lambda>th. holds (pc th)) ths)
      = concat (map (\<lambda>th. holds (pc th)) (take j ths)) @ holds (pc (ths ! j))
        @ concat (map (\<lambda>th. holds (pc th)) (drop (Suc j) ths))"
    by (subst split) simp
  with a assms(4) show ?thesis by auto
qed

lemma not_locked:
  assumes sys: "sys_ok e s" and live: "live_ok s"
    and lt: "t < length (goroutines s)" and pc: "pc (goroutines s ! t) = L299 w"
  shows "\<not> mu (workers (glob s) ! w)"
proof
  assume m: "mu (workers (glob s) ! w)"
  from sys have eq: "mset (workerPool (glob s) @ checkedOut s) = mset [0..<initMaxWorkers e]"
    and len: "length (workers (glob s)) = initMaxWorkers e"
    by (simp_all add: sys_ok_def)
  have d: "distinct (workerPool (glob s) @ checkedOut s)"
    using eq by (metis distinct_upt mset_eq_imp_distinct_iff)
  have wco: "w \<in> set (checkedOut s)"
    using held_member [OF lt, of w] pc by (simp add: checkedOut_def)
  then have "w \<in> set (workerPool (glob s) @ checkedOut s)" by simp
  then have "w \<in> set [0..<initMaxWorkers e]" using eq by (metis set_mset_mset)
  then have "w < length (workers (glob s))" using len by simp
  with live m obtain k where k: "k < length (goroutines s)" "pc (goroutines s ! k) = L340 w"
    unfolding live_ok_def by blast
  with pc have ne: "k \<noteq> t" by auto
  have "\<not> distinct (concat (map (\<lambda>th. holds (pc th)) (goroutines s)))"
  proof (cases "k < t")
    case True
    then show ?thesis using two_holders [of k t "goroutines s" w] lt k pc by simp
  next
    case False
    with ne have "t < k" by simp
    then show ?thesis using two_holders [of t k "goroutines s" w] lt k pc by simp
  qed
  with d show False by (simp add: checkedOut_def)
qed

lemma hs_rank:
  assumes "pc th \<noteq> Done"
    and "\<And>timerAt. pc th = L132 timerAt \<Longrightarrow> timerAt \<le> clock g"
    and "\<And>w. pc th = L299 w \<Longrightarrow> \<not> mu (workers g ! w)"
  shows "rank (pc (snd (HandleScreenshot n br g th))) < rank (pc th)"
proof (cases "pc th")
  case (L132 timerAt)
  have "readyCases g timerAt \<noteq> []"
    using assms(2) [OF L132] by (simp add: readyCases_def)
  then show ?thesis
    by (rule_tac hs_select [OF L132, of g n br]) (simp_all add: L132 logged_def)
next
  case (L299 w)
  then show ?thesis using assms(3) [OF L299] by (simp add: HandleScreenshot_def)
qed (use assms(1) in \<open>simp_all add: HandleScreenshot_def logged_def
       split: runResult.splits option.splits\<close>)

lemma drive_Nil [simp]: "drive t [] = []"
  by (simp add: drive_def)

lemma drive_Cons: "drive t (ob # obs) = Tick (2 ^ 63) # Step t (fst ob) (snd ob) # drive t obs"
  by (simp add: drive_def round_def)

lemma drive_snoc: "drive t (obs @ [ob]) = drive t obs @ [Tick (2 ^ 63), Step t (fst ob) (snd ob)]"
  by (simp add: drive_def round_def)

lemma step_length:
  "length (goroutines (step s (Tick d))) = length (goroutines s)"
  "length (goroutines (step s (Step t n br))) = length (goroutines s)"
  by (simp_all add: step_def split: prod.splits)

lemma step_others:
  "goroutines (step s (Tick d)) = goroutines s"
  "j \<noteq> t \<Longrightarrow> goroutines (step s (Step t n br)) ! j = goroutines s ! j"
  by (simp_all add: step_def split: prod.splits)

lemma step_Step:
  "t < length (goroutines s) \<Longrightarrow>
   glob (step s (Step t n br)) = fst (HandleScreenshot n br (glob s) (goroutines s ! t))
   \<and> goroutines (step s (Step t n br))
       = (goroutines s)[t := snd (HandleScreenshot n br (glob s) (goroutines s ! t))]"
  by (simp add: step_def split: prod.splits)

lemma step_Tick:
  "glob (step s (Tick d)) = (glob s)\<lparr>clock := clock (glob s) + int d\<rparr>"
  by (simp add: step_def)

text \<open>Induction along a drive: what holds of the state before it, and is kept by the
  passing of time and by the steps of the driven goroutine in every reachable state,
  holds after it.\<close>

lemma drive_induct:
  assumes lt: "t < length (goroutines (exec e evs))"
    and base: "Q (exec e evs)"
    and tick: "\<And>evs' d. Q (exec e evs') \<Longrightarrow> t < length (goroutines (exec e evs'))
        \<Longrightarrow> Q (step (exec e evs') (Tick d))"
    and stp: "\<And>evs' n br. Q (exec e evs') \<Longrightarrow> t < length (goroutines (exec e evs'))
        \<Longrightarrow> Q (step (exec e evs') (Step t n br))"
  shows "Q (exec e (evs @ drive t obs)) \<and> t < length (goroutines (exec e (evs @ drive t obs)))"
proof (induction obs rule: rev_induct)
  case Nil
  show ?case using lt base by simp
next
  case (snoc ob obs)
  define s where "s = exec e (evs @ drive t obs)"
  have q: "Q s" and l: "t < length (goroutines s)" using snoc by (simp_all add: s_def)
  have s1: "step s (Tick (2 ^ 63)) = exec e (evs @ drive t obs @ [Tick (2 ^ 63)])"
    by (simp add: s_def exec_def)
  have q1: "Q (step s (Tick (2 ^ 63)))" using tick [of "evs @ drive t obs"] q l by (simp add: s_def)
  have l1: "t < length (goroutines (step s (Tick (2 ^ 63))))" using l by (simp add: step_length)
  have q2: "Q (step (step s (Tick (2 ^ 63))) (Step t (fst ob) (snd ob)))"
    using stp [of "evs @ drive t obs @ [Tick (2 ^ 63)]"] q1 l1 unfolding s1 by simp
  have l2: "t < length (goroutines (step (step s (Tick (2 ^ 63))) (Step t (fst ob) (snd ob))))"
    using l1 by (simp add: step_length)
  have "exec e (evs @ drive t (obs @ [ob]))
      = step (step s (Tick (2 ^ 63))) (Step t (fst ob) (snd ob))"
    by (simp add: drive_snoc s_def exec_def)
  with q2 l2 show ?case by simp
qed

lemma drive_length:
  "t < length (goroutines (exec e evs)) \<Longrightarrow>
   length (goroutines (exec e (evs @ drive t obs))) = length (goroutines (exec e evs))"
  using drive_induct [of t e evs "\<lambda>s. length (goroutines s) = length (goroutines (exec e evs))" obs]
  by (simp add: step_length)

lemma drive_others:
  assumes "t < length (goroutines (exec e evs))" "j \<noteq> t"
  shows "goroutines (exec e (evs @ drive t obs)) ! j = goroutines (exec e evs) ! j"
  using drive_induct [of t e evs "\<lambda>s. goroutines s ! j = goroutines (exec e evs) ! j" obs] assms
  by (simp add: step_others)

lemma hs_req: "req (snd (HandleScreenshot n br g th)) = req th"
proof (cases "pc th")
  case (L132 timerAt)
  show ?thesis
    by (rule hs_select [OF L132, of g n br]) (simp_all add: logged_def)
qed (simp_all add: HandleScreenshot_def logged_def split: runResult.splits option.splits)

lemma drive_req:
  assumes "t < length (goroutines (exec e evs))"
  shows "req (goroutines (exec e (evs @ drive t obs)) ! t) = req (goroutines (exec e evs) ! t)"
  using drive_induct [of t e evs "\<lambda>s. req (goroutines s ! t) = req (goroutines (exec e evs) ! t)" obs]
    assms
  by (simp add: step_others step_Step hs_req)

lemma hs_outcome:
  assumes "thr_ok ce cd th" "outcome th \<noteq> Pending"
  shows "outcome (snd (HandleScreenshot n br g th)) = outcome th"
proof (cases "pc th")
  case (L132 timerAt)
  show ?thesis using assms
    by (rule_tac hs_select [OF L132, of g n br]) (simp_all add: logged_def L132 thr_ok_def waiting_def)
qed (use assms in \<open>auto simp: HandleScreenshot_def logged_def thr_ok_def waiting_def
       split: runResult.splits option.splits\<close>)

lemma drive_outcome:
  assumes lt: "t < length (goroutines (exec e evs))"
    and oc: "outcome (goroutines (exec e evs) ! t) \<noteq> Pending"
  shows "outcome (goroutines (exec e (evs @ drive t obs)) ! t) = outcome (goroutines (exec e evs) ! t)"
proof -
  have "outcome (goroutines (step (exec e evs') (Step t n br)) ! t) = outcome (goroutines (exec e evs) ! t)"
    if "outcome (goroutines (exec e evs') ! t) = outcome (goroutines (exec e evs) ! t)"
      and "t < length (goroutines (exec e evs'))" for evs' n br
    using that oc hs_outcome [OF thr_at [OF that(2)]]
    by (simp add: step_Step)
  then show ?thesis
    using drive_induct [of t e evs
        "\<lambda>s. outcome (goroutines s ! t) = outcome (goroutines (exec e evs) ! t)" obs] lt
    by (simp add: step_others)
qed

text \<open>Progress: every round brings a goroutine that has not returned nearer to its
  return, whatever the \<open>select\<close> chooses and the browser does.\<close>

lemma round_rank:
  assumes lt: "t < length (goroutines (exec e evs))"
  shows "rank (pc (goroutines (exec e (evs @ [Tick (2 ^ 63), Step t n br])) ! t))
    \<le> rank (pc (goroutines (exec e evs) ! t)) - 1"
proof -
  define s where "s = exec e evs"
  define s1 where "s1 = exec e (evs @ [Tick (2 ^ 63)])"
  define th where "th = goroutines s ! t"
  have s1: "s1 = step s (Tick (2 ^ 63))" by (simp add: s1_def s_def exec_def)
  have gs1: "goroutines s1 = goroutines s" by (simp add: s1 step_others)
  have lt1: "t < length (goroutines s1)" using lt by (simp add: gs1 s_def)
  have th1: "goroutines s1 ! t = th" by (simp add: gs1 th_def)
  have s2: "exec e (evs @ [Tick (2 ^ 63), Step t n br]) = step s1 (Step t n br)"
    by (simp add: s1_def exec_def)
  have pc2: "pc (goroutines (step s1 (Step t n br)) ! t)
      = pc (snd (HandleScreenshot n br (glob s1) th))"
    using lt1 by (simp add: step_Step th1)
  show ?thesis
  proof (cases "pc th = Done")
    case True
    then show ?thesis unfolding s2 pc2 by (simp add: HandleScreenshot_def)
  next
    case False
    have live: "live_ok s" unfolding s_def by (rule exec_live_ok)
    have timer: "timerAt \<le> clock (glob s1)" if "pc th = L132 timerAt" for timerAt
    proof -
      have "timerSoon (clock (glob s)) (pc th)"
        using live lt by (simp add: live_ok_def list_all_length th_def s_def)
      with that have "timerAt \<le> clock (glob s) + maxDuration" by simp
      then show ?thesis by (simp add: s1 step_Tick maxDuration_def)
    qed
    have unlocked: "\<not> mu (workers (glob s1) ! w)" if "pc th = L299 w" for w
      using not_locked [of e s1 t w] lt1 that th1 exec_ok [of e] exec_live_ok [of e]
      by (simp add: s1_def)
    have "rank (pc (snd (HandleScreenshot n br (glob s1) th))) < rank (pc th)"
      using False timer unlocked by (rule hs_rank)
    then show ?thesis unfolding s2 pc2 th_def s_def by simp
  qed
qed

lemma drive_rank:
  assumes lt: "t < length (goroutines (exec e evs))"
  shows "rank (pc (goroutines (exec e (evs @ drive t obs)) ! t))
    \<le> rank (pc (goroutines (exec e evs) ! t)) - length obs"
proof (induction obs rule: rev_induct)
  case Nil
  show ?case by simp
next
  case (snoc ob obs)
  have l: "t < length (goroutines (exec e (evs @ drive t obs)))"
    using lt by (simp add: drive_length)
  have "rank (pc (goroutines (exec e ((evs @ drive t obs) @ [Tick (2 ^ 63), Step t (fst ob) (snd ob)])) ! t))
      \<le> rank (pc (goroutines (exec e (evs @ drive t obs)) ! t)) - 1"
    using l by (rule round_rank)
  with snoc show ?case by (simp add: drive_snoc)
qed

lemma drive_done:
  assumes "t < length (goroutines (exec e evs))" "17 \<le> length obs"
  shows "pc (goroutines (exec e (evs @ drive t obs)) ! t) = Done"
proof -
  have "rank (pc (goroutines (exec e (evs @ drive t obs)) ! t)) \<le> 17 - length obs"
    using drive_rank [OF assms(1), of obs] rank_le [of "pc (goroutines (exec e evs) ! t)"]
    by simp
  with assms(2) show ?thesis by (simp add: rank_Done)
qed

lemma drive_goroutines:
  assumes lt: "t < length (goroutines (exec e evs))"
  shows "goroutines (exec e (evs @ drive t obs))
    = (goroutines (exec e evs))[t := goroutines (exec e (evs @ drive t obs)) ! t]"
proof (rule nth_equalityI)
  show "length (goroutines (exec e (evs @ drive t obs)))
      = length ((goroutines (exec e evs))[t := goroutines (exec e (evs @ drive t obs)) ! t])"
    using drive_length [OF lt, of obs] by simp
next
  fix i
  assume "i < length (goroutines (exec e (evs @ drive t obs)))"
  then have i: "i < length (goroutines (exec e evs))" using drive_length [OF lt, of obs] by simp
  show "goroutines (exec e (evs @ drive t obs)) ! i
      = (goroutines (exec e evs))[t := goroutines (exec e (evs @ drive t obs)) ! t] ! i"
  proof (cases "i = t")
    case True
    then show ?thesis using lt by simp
  next
    case False
    then show ?thesis using drive_others [OF lt False, of obs] by simp
  qed
qed

lemma acquired_iff: "w \<in> set (acquired tr) \<longleftrightarrow> AcquireOk w \<in> set tr"
proof (induction tr)
  case Nil
  show ?case by (simp add: acquired_def)
next
  case (Cons a tr)
  then show ?case by (cases a) (auto simp: acquired_def)
qed

lemma holder_acquired:
  assumes "thr_ok ce cd th" "w \<in> set (holds (pc th))"
  shows "AcquireOk w \<in> set (trace th)"
  using assms
  by (cases "pc th"; cases "outcome th")
     (auto simp: thr_ok_def waiting_def bodyTrace_def)

lemma drive_trace_mono:
  assumes lt: "t < length (goroutines (exec e evs))"
  shows "set (trace (goroutines (exec e evs) ! t))
    \<subseteq> set (trace (goroutines (exec e (evs @ drive t obs)) ! t))"
  using drive_induct [of t e evs
      "\<lambda>s. set (trace (goroutines (exec e evs) ! t)) \<subseteq> set (trace (goroutines s ! t))" obs] lt
    hs_trace_mono
  by (simp add: step_others step_Step) blast

lemma checkedOut_iff:
  "w \<in> set (checkedOut s) \<longleftrightarrow> (\<exists>j<length (goroutines s). w \<in> set (holds (pc (goroutines s ! j))))"
proof
  assume "w \<in> set (checkedOut s)"
  then obtain th where th: "th \<in> set (goroutines s)" "w \<in> set (holds (pc th))"
    by (auto simp: checkedOut_def)
  then obtain j where "j < length (goroutines s)" "goroutines s ! j = th"
    by (auto simp: in_set_conv_nth)
  with th show "\<exists>j<length (goroutines s). w \<in> set (holds (pc (goroutines s ! j)))" by auto
next
  assume "\<exists>j<length (goroutines s). w \<in> set (holds (pc (goroutines s ! j)))"
  then obtain j where j: "j < length (goroutines s)" "w \<in> set (holds (pc (goroutines s ! j)))"
    by blast
  then show "w \<in> set (checkedOut s)" using held_member [OF j] by (simp add: checkedOut_def)
qed

lemma sole_holder:
  assumes sys: "sys_ok e s" and i: "i < length (goroutines s)" and j: "j < length (goroutines s)"
    and wi: "w \<in> set (holds (pc (goroutines s ! i)))" and wj: "w \<in> set (holds (pc (goroutines s ! j)))"
  shows "i = j"
proof (rule ccontr)
  assume ne: "i \<noteq> j"
  from sys have eq: "mset (workerPool (glob s) @ checkedOut s) = mset [0..<initMaxWorkers e]"
    by (simp add: sys_ok_def)
  have d: "distinct (workerPool (glob s) @ checkedOut s)"
    using eq by (metis distinct_upt mset_eq_imp_distinct_iff)
  have "\<not> distinct (concat (map (\<lambda>th. holds (pc th)) (goroutines s)))"
  proof (cases "i < j")
    case True
    then show ?thesis using two_holders [of i j "goroutines s" w] j wi wj by simp
  next
    case False
    with ne have "j < i" by simp
    then show ?thesis using two_holders [of j i "goroutines s" w] i wi wj by simp
  qed
  with d show False by (simp add: checkedOut_def)
qed

lemma hs_L340:
  "pc th = L340 w \<Longrightarrow>
   outcome (snd (HandleScreenshot n br g th))
     = Captured w (snd (captureScreenshot br (url th) (width th) (height th) (timeout th)))"
  by (simp add: HandleScreenshot_def logged_def split: runResult.splits)

text \<open>What holds of a goroutine that has returned.\<close>

lemma released_at_return:
  assumes "t < length (goroutines (exec e evs))"
    and "pc (goroutines (exec e evs) ! t) = Done"
  shows "released (trace (goroutines (exec e evs) ! t)) = acquired (trace (goroutines (exec e evs) ! t))
    \<and> length (acquired (trace (goroutines (exec e evs) ! t))) \<le> 1
    \<and> (\<forall>w r. outcome (goroutines (exec e evs) ! t) = Captured w r \<longrightarrow>
           acquired (trace (goroutines (exec e evs) ! t)) = [w]
         \<and> released (trace (goroutines (exec e evs) ! t)) = [w])
    \<and> ((\<forall>w r. outcome (goroutines (exec e evs) ! t) \<noteq> Captured w r) \<longrightarrow>
           acquired (trace (goroutines (exec e evs) ! t)) = [])"
proof -
  define th where "th = goroutines (exec e evs) ! t"
  define ce where "ce = cacheEnabled (init e)"
  have ok: "thr_ok ce (cacheDuration (init e)) th"
    unfolding th_def ce_def using assms(1) by (rule thr_at)
  have tr: "trace th = bodyTrace ce th @ releasePart (outcome th) @ recoverPart (outcome th) @ [SubActive]"
    using done_shape(3) [OF ok] assms(2) by (simp add: th_def)
  have part: "acquired (renderedPart ce k r) = []" "released (renderedPart ce k r) = []" for k r
    by (cases "(ce, k, r)" rule: renderedPart.cases; simp add: acquired_def released_def)+
  have rec: "acquired (recoverPart oc) = []" "released (recoverPart oc) = []" for oc
    by (simp_all add: recoverPart_def acquired_def released_def)
  have app: "acquired (xs @ ys) = acquired xs @ acquired ys"
    "released (xs @ ys) = released xs @ released ys" for xs ys
    by (simp_all add: acquired_def released_def)
  have cons: "acquired (x # xs) = acquiredOf x @ acquired xs"
    "released (x # xs) = releasedOf x @ released xs" for x xs
    by (simp_all add: acquired_def released_def)
  have nil: "acquired [] = []" "released [] = []"
    by (simp_all add: acquired_def released_def)
  have "released (trace th) = acquired (trace th)
    \<and> length (acquired (trace th)) \<le> 1
    \<and> (\<forall>w r. outcome th = Captured w r \<longrightarrow> acquired (trace th) = [w] \<and> released (trace th) = [w])
    \<and> ((\<forall>w r. outcome th \<noteq> Captured w r) \<longrightarrow> acquired (trace th) = [])"
    unfolding tr
    by (cases "outcome th")
       (simp_all add: bodyTrace_def entered_def lookupPart_def app cons nil part rec)
  then show ?thesis unfolding th_def .
qed

theorem release_always:
  assumes "t < length (goroutines (exec e evs))" and "17 \<le> length obs"
  defines "th \<equiv> goroutines (exec e evs) ! t"
  defines "s' \<equiv> exec e (evs @ drive t obs)"
  defines "th' \<equiv> goroutines (exec e (evs @ drive t obs)) ! t"
  shows "pc th' = Done
    \<and> released (trace th') = acquired (trace th')
    \<and> length (acquired (trace th')) \<le> 1
    \<and> (\<forall>w r. outcome th' = Captured w r \<longrightarrow> acquired (trace th') = [w] \<and> released (trace th') = [w])
    \<and> ((\<forall>w r. outcome th' \<noteq> Captured w r) \<longrightarrow> acquired (trace th') = [])
    \<and> (\<forall>w. w \<in> set (holds (pc th)) \<longrightarrow>
          released (trace th') = [w] \<and> w \<in> set (workerPool (glob s')) \<and> w \<notin> set (checkedOut s'))
    \<and> (\<forall>w. pc th = L340 w \<longrightarrow>
          outcome th' = Captured w (snd (captureScreenshot (snd (hd obs)) (url th) (width th)
                                          (height th) (timeout th))))"
proof -
  have lt': "t < length (goroutines s')"
    using assms(1) by (simp add: s'_def drive_length)
  have fin: "pc th' = Done"
    unfolding th'_def using assms(1,2) by (rule drive_done)
  have ret: "released (trace th') = acquired (trace th')
    \<and> length (acquired (trace th')) \<le> 1
    \<and> (\<forall>w r. outcome th' = Captured w r \<longrightarrow> acquired (trace th') = [w] \<and> released (trace th') = [w])
    \<and> ((\<forall>w r. outcome th' \<noteq> Captured w r) \<longrightarrow> acquired (trace th') = [])"
    using released_at_return [of t e "evs @ drive t obs"] lt' fin
    by (simp add: th'_def s'_def)
  have held: "released (trace th') = [w] \<and> w \<in> set (workerPool (glob s')) \<and> w \<notin> set (checkedOut s')"
    if w: "w \<in> set (holds (pc th))" for w
  proof -
    have sys: "sys_ok e (exec e evs)" and sys': "sys_ok e s'"
      unfolding s'_def by (rule exec_ok)+
    have "AcquireOk w \<in> set (trace th)"
      using holder_acquired [OF thr_at [OF assms(1)]] w by (simp add: th_def)
    then have "AcquireOk w \<in> set (trace th')"
      using drive_trace_mono [OF assms(1), of obs] by (auto simp: th_def th'_def)
    then have "w \<in> set (acquired (trace th'))" by (simp add: acquired_iff)
    with ret have rel: "released (trace th') = [w]"
      by (cases "acquired (trace th')") auto
    have notco: "w \<notin> set (checkedOut s')"
    proof
      assume "w \<in> set (checkedOut s')"
      then obtain j where j: "j < length (goroutines s')" "w \<in> set (holds (pc (goroutines s' ! j)))"
        by (auto simp: checkedOut_iff)
      have "j \<noteq> t" using j(2) fin by (auto simp: th'_def s'_def)
      then have same: "goroutines s' ! j = goroutines (exec e evs) ! j"
        unfolding s'_def using drive_others [OF assms(1)] by simp
      have jl: "j < length (goroutines (exec e evs))"
        using j(1) assms(1) by (simp add: s'_def drive_length)
      from sole_holder [OF sys jl assms(1), of w] j(2) same w \<open>j \<noteq> t\<close>
      show False by (simp add: th_def)
    qed
    have "w \<in> set (checkedOut (exec e evs))"
      using w assms(1) by (auto simp: checkedOut_iff th_def)
    then have "w \<in> set (workerPool (glob (exec e evs)) @ checkedOut (exec e evs))" by simp
    moreover have "mset (workerPool (glob (exec e evs)) @ checkedOut (exec e evs))
        = mset (workerPool (glob s') @ checkedOut s')"
      using sys sys' by (simp add: sys_ok_def)
    ultimately have "w \<in> set (workerPool (glob s') @ checkedOut s')"
      by (metis set_mset_mset)
    with notco have "w \<in> set (workerPool (glob s'))" by simp
    with rel notco show ?thesis by simp
  qed
  have cap: "outcome th' = Captured w (snd (captureScreenshot (snd (hd obs)) (url th) (width th)
                                          (height th) (timeout th)))"
    if pc: "pc th = L340 w" for w
  proof -
    obtain ob obs' where obs: "obs = ob # obs'" using assms(2) by (cases obs) auto
    define evs1 where "evs1 = evs @ [Tick (2 ^ 63), Step t (fst ob) (snd ob)]"
    have e1: "evs @ drive t obs = evs1 @ drive t obs'"
      by (simp add: obs drive_Cons evs1_def)
    have l1: "t < length (goroutines (exec e evs1))"
      using assms(1) by (simp add: evs1_def exec_append step_length)
    have "goroutines (exec e evs1) ! t
        = snd (HandleScreenshot (fst ob) (snd ob)
            (glob (step (exec e evs) (Tick (2 ^ 63)))) th)"
      using assms(1) by (simp add: evs1_def exec_append step_Step step_others step_length th_def)
    then have o1: "outcome (goroutines (exec e evs1) ! t)
        = Captured w (snd (captureScreenshot (snd ob) (url th) (width th) (height th) (timeout th)))"
      using hs_L340 [OF pc] by simp
    have "outcome (goroutines (exec e (evs1 @ drive t obs')) ! t)
        = outcome (goroutines (exec e evs1) ! t)"
      using l1 o1 by (intro drive_outcome) simp_all
    with o1 show ?thesis unfolding th'_def e1 by (simp add: obs)
  qed
  from fin ret held cap show ?thesis by blast
qed

end
